theory Spec2Isabelle
  imports Main "HOL-Library.AList"
begin

section \<open>Python strings\<close>

text \<open>
  A Python \<open>str\<close> is a sequence of Unicode code points; \<open>len\<close> counts code points.
  The catalog is Russian, so strings are lists of code points (natural numbers), not
  bytes.  ASCII literals are written with \<open>asc\<close>; Cyrillic literals are spelled out
  as code points.
\<close>

type_synonym ustr = "nat list"

definition asc :: "string \<Rightarrow> ustr" where
  "asc s = map of_char s"

text \<open>
  Character tables.  \<open>is_space\<close> is the complete list of code points for which
  \<open>str.isspace\<close> holds (it is also the class \<open>\s\<close> of \<open>re\<close> and what \<open>str.strip\<close>
  removes).  The other tables (\<open>\d\<close>, \<open>\w\<close>, \<open>str.isupper\<close>, \<open>str.lower\<close>) are those of
  Python on Basic Latin and on the Russian alphabet (U+0410..U+044F, U+0401, U+0451);
  every other code point is classified as a caseless symbol.  Of these four tables
  the universally quantified theorems below use only that the hyphen is no word
  character and that no word character is whitespace, which is so in Python's full
  tables as well.
\<close>

definition is_space :: "nat \<Rightarrow> bool" where
  "is_space c \<longleftrightarrow>
     (9 \<le> c \<and> c \<le> 13) \<or> (28 \<le> c \<and> c \<le> 32) \<or> c = 133 \<or> c = 160 \<or> c = 5760 \<or>
     (8192 \<le> c \<and> c \<le> 8202) \<or> c = 8232 \<or> c = 8233 \<or> c = 8239 \<or> c = 8287 \<or> c = 12288"

definition is_digit :: "nat \<Rightarrow> bool" where
  "is_digit c \<longleftrightarrow> 48 \<le> c \<and> c \<le> 57"

definition is_latin :: "nat \<Rightarrow> bool" where
  \<comment> \<open>the class \<open>[a-zA-Z]\<close>\<close>
  "is_latin c \<longleftrightarrow> (65 \<le> c \<and> c \<le> 90) \<or> (97 \<le> c \<and> c \<le> 122)"

definition is_cyr :: "nat \<Rightarrow> bool" where
  \<comment> \<open>the class \<open>[A-YaYOa-yayo]\<close> of the Russian alphabet: U+0410..U+044F, U+0401, U+0451\<close>
  "is_cyr c \<longleftrightarrow> (1040 \<le> c \<and> c \<le> 1103) \<or> c = 1025 \<or> c = 1105"

definition is_word :: "nat \<Rightarrow> bool" where
  \<comment> \<open>\<open>\w\<close>: letters, digits and the underscore\<close>
  "is_word c \<longleftrightarrow> is_latin c \<or> is_digit c \<or> c = 95 \<or> is_cyr c"

definition is_upper :: "nat \<Rightarrow> bool" where
  \<comment> \<open>\<open>str.isupper\<close> of a one-character string\<close>
  "is_upper c \<longleftrightarrow> (65 \<le> c \<and> c \<le> 90) \<or> (1040 \<le> c \<and> c \<le> 1071) \<or> c = 1025"

definition to_lower :: "nat \<Rightarrow> nat" where
  "to_lower c =
     (if (65 \<le> c \<and> c \<le> 90) \<or> (1040 \<le> c \<and> c \<le> 1071) then c + 32
      else if c = 1025 then 1105 else c)"

definition lower :: "ustr \<Rightarrow> ustr" where
  "lower s = map to_lower s"

definition strip :: "ustr \<Rightarrow> ustr" where
  "strip s = rev (dropWhile is_space (rev (dropWhile is_space s)))"

definition blank :: "ustr \<Rightarrow> bool" where
  \<comment> \<open>\<open>not s.strip()\<close>\<close>
  "blank s \<longleftrightarrow> strip s = []"

fun split_on :: "nat \<Rightarrow> ustr \<Rightarrow> ustr list" where
  "split_on d [] = [[]]"
| "split_on d (c # cs) =
     (if c = d then [] # split_on d cs
      else (case split_on d cs of [] \<Rightarrow> [[c]] | l # ls \<Rightarrow> (c # l) # ls))"

definition split_lines :: "ustr \<Rightarrow> ustr list" where
  \<comment> \<open>\<open>s.split('\n')\<close>\<close>
  "split_lines s = split_on 10 s"

fun join :: "ustr \<Rightarrow> ustr list \<Rightarrow> ustr" where
  "join sep [] = []"
| "join sep [x] = x"
| "join sep (x # y # ys) = x @ sep @ join sep (y # ys)"

definition join_lines :: "ustr list \<Rightarrow> ustr" where
  \<comment> \<open>\<open>'\n'.join(xs)\<close>\<close>
  "join_lines xs = join [10] xs"

definition join_blank :: "ustr list \<Rightarrow> ustr" where
  \<comment> \<open>\<open>'\n\n'.join(xs)\<close>\<close>
  "join_blank xs = join [10, 10] xs"

fun startswith :: "ustr \<Rightarrow> ustr \<Rightarrow> bool" where
  \<comment> \<open>\<open>s.startswith(p)\<close>, as \<open>startswith s p\<close>\<close>
  "startswith s [] = True"
| "startswith [] (c # p) = False"
| "startswith (d # s) (c # p) = (c = d \<and> startswith s p)"

fun contains :: "ustr \<Rightarrow> ustr \<Rightarrow> bool" where
  \<comment> \<open>\<open>p in s\<close>, as \<open>contains s p\<close>\<close>
  "contains [] p = (p = [])"
| "contains (d # s) p = (startswith (d # s) p \<or> contains s p)"

definition slice :: "ustr \<Rightarrow> nat \<Rightarrow> nat \<Rightarrow> ustr" where
  \<comment> \<open>\<open>s[a:b]\<close> for \<open>0 \<le> a\<close>, \<open>0 \<le> b\<close>\<close>
  "slice s a b = take (b - a) (drop a s)"


section \<open>Regular expressions\<close>

text \<open>
  Every pattern of the program is a sequence of character classes with the
  quantifiers \<open>?\<close>, \<open>*\<close>, \<open>+\<close>, \<open>+?\<close>, the anchors \<open>^\<close>, \<open>$\<close>, \<open>\b\<close> and capture groups
  around whole items.  \<open>rx_match\<close> is the backtracking matcher of \<open>re\<close> on that
  fragment: a greedy quantifier first tries to take one more character and falls
  back to the rest of the pattern, the lazy one first tries the rest of the pattern.  The matcher is given the character before the position, the position and
  the rest of the string; it returns the positions recorded at the \<open>Mark\<close>s, followed
  by the position where the match ends.
\<close>

datatype rx =
    Chr "nat \<Rightarrow> bool"
  | Opt "nat \<Rightarrow> bool"
  | Star "nat \<Rightarrow> bool"
  | Plus "nat \<Rightarrow> bool"
  | LazyPlus "nat \<Rightarrow> bool"
  | Bol
  | BolM
  | Eol
  | WordB
  | Mark

definition word_before :: "nat option \<Rightarrow> bool" where
  "word_before p = (case p of None \<Rightarrow> False | Some c \<Rightarrow> is_word c)"

definition word_after :: "ustr \<Rightarrow> bool" where
  "word_after r = (case r of [] \<Rightarrow> False | c # _ \<Rightarrow> is_word c)"

fun rx_match :: "rx list \<Rightarrow> nat option \<Rightarrow> nat \<Rightarrow> ustr \<Rightarrow> nat list option" where
  "rx_match [] p i r = Some [i]"
| "rx_match (Chr f # k) p i [] = None"
| "rx_match (Chr f # k) p i (c # r) = (if f c then rx_match k (Some c) (Suc i) r else None)"
| "rx_match (Opt f # k) p i [] = rx_match k p i []"
| "rx_match (Opt f # k) p i (c # r) =
     (if f c then
        (case rx_match k (Some c) (Suc i) r of
           Some ms \<Rightarrow> Some ms
         | None \<Rightarrow> rx_match k p i (c # r))
      else rx_match k p i (c # r))"
| "rx_match (Star f # k) p i [] = rx_match k p i []"
| "rx_match (Star f # k) p i (c # r) =
     (if f c then
        (case rx_match (Star f # k) (Some c) (Suc i) r of
           Some ms \<Rightarrow> Some ms
         | None \<Rightarrow> rx_match k p i (c # r))
      else rx_match k p i (c # r))"
| "rx_match (Plus f # k) p i [] = None"
| "rx_match (Plus f # k) p i (c # r) =
     (if f c then rx_match (Star f # k) (Some c) (Suc i) r else None)"
| "rx_match (LazyPlus f # k) p i [] = None"
| "rx_match (LazyPlus f # k) p i (c # r) =
     (if f c then
        (case rx_match k (Some c) (Suc i) r of
           Some ms \<Rightarrow> Some ms
         | None \<Rightarrow> rx_match (LazyPlus f # k) (Some c) (Suc i) r)
      else None)"
| "rx_match (Bol # k) p i r = (if i = 0 then rx_match k p i r else None)"
| "rx_match (BolM # k) p i r = (if i = 0 \<or> p = Some 10 then rx_match k p i r else None)"
| "rx_match (Eol # k) p i r = (if r = [] \<or> r = [10] then rx_match k p i r else None)"
| "rx_match (WordB # k) p i r =
     (if word_before p \<noteq> word_after r then rx_match k p i r else None)"
| "rx_match (Mark # k) p i r =
     (case rx_match k p i r of None \<Rightarrow> None | Some ms \<Rightarrow> Some (i # ms))"

text \<open>
  A match is the pair of its start and the list returned by \<open>rx_match\<close>.
  \<open>rx_search\<close> is \<open>pattern.search\<close>: the match at the leftmost position that has one.
  \<open>rx_scan\<close> lists the matches \<open>finditer\<close> and \<open>sub\<close> visit: after a match the scan
  goes on where the match ended (\<open>n\<close> counts the characters still to skip).  None of
  the program's patterns matches the empty string.
\<close>

type_synonym rmatch = "nat \<times> nat list"

fun rx_search_from :: "rx list \<Rightarrow> nat option \<Rightarrow> nat \<Rightarrow> ustr \<Rightarrow> rmatch option" where
  "rx_search_from pat p i [] = map_option (Pair i) (rx_match pat p i [])"
| "rx_search_from pat p i (c # r) =
     (case rx_match pat p i (c # r) of
        Some ms \<Rightarrow> Some (i, ms)
      | None \<Rightarrow> rx_search_from pat (Some c) (Suc i) r)"

definition rx_search :: "rx list \<Rightarrow> ustr \<Rightarrow> rmatch option" where
  "rx_search pat s = rx_search_from pat None 0 s"

definition rx_found :: "rx list \<Rightarrow> ustr \<Rightarrow> bool" where
  \<comment> \<open>the truth value of \<open>re.search(pat, s)\<close>\<close>
  "rx_found pat s \<longleftrightarrow> rx_search pat s \<noteq> None"

definition rx_match_start :: "rx list \<Rightarrow> ustr \<Rightarrow> bool" where
  \<comment> \<open>the truth value of \<open>re.match(pat, s)\<close>\<close>
  "rx_match_start pat s \<longleftrightarrow> rx_match pat None 0 s \<noteq> None"

fun rx_scan :: "rx list \<Rightarrow> nat option \<Rightarrow> nat \<Rightarrow> nat \<Rightarrow> ustr \<Rightarrow> rmatch list" where
  "rx_scan pat p i (Suc n) [] = []"
| "rx_scan pat p i (Suc n) (c # r) = rx_scan pat (Some c) (Suc i) n r"
| "rx_scan pat p i 0 r =
     (case rx_match pat p i r of
        None \<Rightarrow> (case r of [] \<Rightarrow> [] | c # r' \<Rightarrow> rx_scan pat (Some c) (Suc i) 0 r')
      | Some ms \<Rightarrow>
          (i, ms) # (case r of [] \<Rightarrow> []
                     | c # r' \<Rightarrow> rx_scan pat (Some c) (Suc i) (last ms - Suc i) r'))"

definition finditer :: "rx list \<Rightarrow> ustr \<Rightarrow> rmatch list" where
  "finditer pat s = rx_scan pat None 0 0 s"

definition m_end :: "rmatch \<Rightarrow> nat" where
  "m_end m = last (snd m)"

definition group0 :: "ustr \<Rightarrow> rmatch \<Rightarrow> ustr" where
  \<comment> \<open>\<open>match.group(0)\<close>\<close>
  "group0 s m = slice s (fst m) (m_end m)"

definition group1 :: "ustr \<Rightarrow> rmatch \<Rightarrow> ustr" where
  \<comment> \<open>\<open>match.group(1)\<close>: between the first and the second mark\<close>
  "group1 s m = slice s (snd m ! 0) (snd m ! 1)"

definition group2 :: "ustr \<Rightarrow> rmatch \<Rightarrow> ustr" where
  \<comment> \<open>\<open>match.group(2)\<close>: between the third and the fourth mark\<close>
  "group2 s m = slice s (snd m ! 2) (snd m ! 3)"

fun rebuild :: "ustr \<Rightarrow> (rmatch \<Rightarrow> ustr) \<Rightarrow> nat \<Rightarrow> rmatch list \<Rightarrow> ustr" where
  "rebuild s repl pos [] = drop pos s"
| "rebuild s repl pos (m # ms) = slice s pos (fst m) @ repl m @ rebuild s repl (m_end m) ms"

definition rx_sub :: "rx list \<Rightarrow> (ustr \<Rightarrow> rmatch \<Rightarrow> ustr) \<Rightarrow> ustr \<Rightarrow> ustr" where
  \<comment> \<open>\<open>re.sub(pat, repl, s)\<close>; the template \<open>repl\<close> reads the groups of the match\<close>
  "rx_sub pat repl s = rebuild s (repl s) 0 (finditer pat s)"

definition lit :: "ustr \<Rightarrow> rx list" where
  \<comment> \<open>a literal, case-sensitive\<close>
  "lit s = map (\<lambda>c. Chr (\<lambda>d. d = c)) s"

definition lit_i :: "ustr \<Rightarrow> rx list" where
  \<comment> \<open>a literal under \<open>re.IGNORECASE\<close>\<close>
  "lit_i s = map (\<lambda>c. Chr (\<lambda>d. to_lower d = to_lower c)) s"


section \<open>The page map\<close>

text \<open>
  A page is the dictionary with the four keys \<open>full_text\<close>, \<open>top_left_title_raw\<close>,
  \<open>top_left_title_norm\<close> and \<open>composition\<close> that the extractor builds for every page
  and that every docstring of the pipeline declares; on it the defaults of
  \<open>data.get(key, '')\<close> never apply.  The page map \<open>Dict[int, page]\<close> is an association
  list in insertion order, the order in which \<open>items()\<close> and \<open>values()\<close> iterate; a
  dictionary has no key twice.
\<close>

record page =
  full_text :: ustr
  top_left_title_raw :: ustr
  top_left_title_norm :: ustr
  composition :: ustr

type_synonym page_map = "(int \<times> page) list"

definition well_formed :: "page_map \<Rightarrow> bool" where
  "well_formed pm \<longleftrightarrow> distinct (map fst pm)"

definition sorted_keys :: "page_map \<Rightarrow> int list" where
  \<comment> \<open>\<open>sorted(pm.keys())\<close>\<close>
  "sorted_keys pm = sort (map fst pm)"


section \<open>cleaner.py\<close>

definition chr_in :: "nat list \<Rightarrow> nat \<Rightarrow> bool" where
  "chr_in cs c \<longleftrightarrow> c \<in> set cs"

definition is_letter :: "nat \<Rightarrow> bool" where
  \<comment> \<open>the class \<open>[a-ya-z]\<close> (Cyrillic and Latin small letters) under \<open>re.IGNORECASE\<close>\<close>
  "is_letter c \<longleftrightarrow> is_cyr c \<or> is_latin c"

definition hyphen_space :: "rx list" where
  \<comment> \<open>\<open>(\w+)-\s+(\w+)\<close>\<close>
  "hyphen_space = [Mark, Plus is_word, Mark, Chr (chr_in [45]), Plus is_space, Mark, Plus is_word, Mark]"

definition hyphen_newline :: "rx list" where
  \<comment> \<open>\<open>(\w+)-\n\s*(\w+)\<close>\<close>
  "hyphen_newline =
     [Mark, Plus is_word, Mark, Chr (chr_in [45]), Chr (chr_in [10]), Star is_space, Mark, Plus is_word, Mark]"

definition letter_hyphen_space :: "rx list" where
  \<comment> \<open>\<open>([a-ya-z])-\s+([a-ya-z])\<close> with \<open>re.IGNORECASE\<close>\<close>
  "letter_hyphen_space =
     [Mark, Chr is_letter, Mark, Chr (chr_in [45]), Plus is_space, Mark, Chr is_letter, Mark]"

definition letter_hyphen_newline :: "rx list" where
  \<comment> \<open>\<open>([a-ya-z])-\n\s*([a-ya-z])\<close> with \<open>re.IGNORECASE\<close>\<close>
  "letter_hyphen_newline =
     [Mark, Chr is_letter, Mark, Chr (chr_in [45]), Chr (chr_in [10]), Star is_space, Mark, Chr is_letter, Mark]"

definition groups12 :: "ustr \<Rightarrow> rmatch \<Rightarrow> ustr" where
  \<comment> \<open>the template \<open>r'\1\2'\<close>\<close>
  "groups12 s m = group1 s m @ group2 s m"

definition fix_hyphenation :: "ustr \<Rightarrow> ustr" where
  "fix_hyphenation t =
     rx_sub letter_hyphen_newline groups12
       (rx_sub letter_hyphen_space groups12
         (rx_sub hyphen_newline groups12
           (rx_sub hyphen_space groups12 t)))"

definition deleted :: "ustr \<Rightarrow> rmatch \<Rightarrow> ustr" where
  \<comment> \<open>the template \<open>''\<close>\<close>
  "deleted s m = []"

definition marker_bullet :: "rx list" where
  \<comment> \<open>\<open>^[\s\t]*[bullets][\s\t]+\<close>; the bullets are U+2022, U+00B7, U+25AA, U+25AB\<close>
  "marker_bullet = [Bol, Star is_space, Chr (chr_in [8226, 183, 9642, 9643]), Plus is_space]"

definition marker_dash :: "rx list" where
  \<comment> \<open>\<open>^[\s\t]*[-*][\s\t]+\<close>\<close>
  "marker_dash = [Bol, Star is_space, Chr (chr_in [45, 42]), Plus is_space]"

definition marker_number :: "rx list" where
  \<comment> \<open>\<open>^[\s\t]*\d+[\.\)\-][\s\t]+\<close>\<close>
  "marker_number = [Bol, Star is_space, Plus is_digit, Chr (chr_in [46, 41, 45]), Plus is_space]"

definition marker_roman :: "rx list" where
  \<comment> \<open>\<open>^[\s\t]*[IVX]+[\.\)][\s\t]+\<close> with \<open>re.IGNORECASE\<close>\<close>
  "marker_roman =
     [Bol, Star is_space, Plus (chr_in [73, 86, 88, 105, 118, 120]), Chr (chr_in [46, 41]), Plus is_space]"

definition marker_letter :: "rx list" where
  \<comment> \<open>\<open>^[\s\t]*[a-ya-z][\.\)\-][\s\t]+\<close> with \<open>re.IGNORECASE\<close>\<close>
  "marker_letter = [Bol, Star is_space, Chr is_letter, Chr (chr_in [46, 41, 45]), Plus is_space]"

definition strip_marker :: "ustr \<Rightarrow> ustr" where
  \<comment> \<open>the body of the loop of \<open>remove_list_markers\<close>; the last step is \<open>line.lstrip('\t ')\<close>\<close>
  "strip_marker l =
     dropWhile (chr_in [9, 32])
       (rx_sub marker_letter deleted
         (rx_sub marker_roman deleted
           (rx_sub marker_number deleted
             (rx_sub marker_dash deleted
               (rx_sub marker_bullet deleted l)))))"

definition remove_list_markers :: "ustr \<Rightarrow> ustr" where
  "remove_list_markers t = join_lines (map strip_marker (split_lines t))"

definition page_number_patterns :: "rx list list" where
  \<comment> \<open>\<open>^\s*\d+\s*$\<close>, \<open>^\s*str\.?\s*\d+\s*$\<close> (Cyrillic U+0441 U+0442 U+0440),
      \<open>^\s*page\s+\d+\s*$\<close>, \<open>^\s*\d+\s*/\s*\d+\s*$\<close>; matched with \<open>re.IGNORECASE\<close>\<close>
  "page_number_patterns =
     [ [Bol, Star is_space, Plus is_digit, Star is_space, Eol],
       [Bol, Star is_space] @ lit_i [1089, 1090, 1088] @
         [Opt (chr_in [46]), Star is_space, Plus is_digit, Star is_space, Eol],
       [Bol, Star is_space] @ lit_i (asc ''page'') @
         [Plus is_space, Plus is_digit, Star is_space, Eol],
       [Bol, Star is_space, Plus is_digit, Star is_space, Chr (chr_in [47]), Star is_space,
        Plus is_digit, Star is_space, Eol] ]"

definition is_page_number :: "ustr \<Rightarrow> bool" where
  "is_page_number l \<longleftrightarrow> list_ex (\<lambda>pat. rx_match_start pat l) page_number_patterns"

definition remove_page_numbers :: "ustr \<Rightarrow> ustr" where
  "remove_page_numbers t = join_lines (filter (\<lambda>l. \<not> is_page_number l) (split_lines t))"

definition decorative :: "rx list" where
  \<comment> \<open>\<open>skin\s+skin\s+ess\s+ess\s+ent\s+ent\s+ials\s+ials\<close> with \<open>re.IGNORECASE\<close>\<close>
  "decorative =
     lit_i (asc ''skin'') @ [Plus is_space] @ lit_i (asc ''skin'') @ [Plus is_space] @
     lit_i (asc ''ess'') @ [Plus is_space] @ lit_i (asc ''ess'') @ [Plus is_space] @
     lit_i (asc ''ent'') @ [Plus is_space] @ lit_i (asc ''ent'') @ [Plus is_space] @
     lit_i (asc ''ials'') @ [Plus is_space] @ lit_i (asc ''ials'')"

definition remove_decorative :: "ustr \<Rightarrow> ustr" where
  \<comment> \<open>step 4 of \<open>clean_text\<close>: the pattern, then the pattern followed by \<open>\s*\<close>\<close>
  "remove_decorative t =
     rx_sub (decorative @ [Star is_space]) deleted (rx_sub decorative deleted t)"

definition ends_sentence :: "ustr \<Rightarrow> bool" where
  \<comment> \<open>\<open>re.search(r'[.!?]\s*$', s)\<close>\<close>
  "ends_sentence s \<longleftrightarrow> rx_found [Chr (chr_in [46, 33, 63]), Star is_space, Eol] s"

definition ends_colon :: "ustr \<Rightarrow> bool" where
  \<comment> \<open>\<open>re.search(r'[;:]\s*$', s)\<close>\<close>
  "ends_colon s \<longleftrightarrow> rx_found [Chr (chr_in [59, 58]), Star is_space, Eol] s"

definition starts_capital :: "ustr \<Rightarrow> bool" where
  \<comment> \<open>\<open>re.search(r'^[A-YAYOA-Z]', s)\<close>: a Cyrillic or Latin capital, case-sensitive\<close>
  "starts_capital s \<longleftrightarrow>
     rx_found [Bol, Chr (\<lambda>c. (1040 \<le> c \<and> c \<le> 1071) \<or> c = 1025 \<or> (65 \<le> c \<and> c \<le> 90))] s"

definition upper_start :: "ustr \<Rightarrow> bool" where
  \<comment> \<open>\<open>s[0].isupper() and not s[0].isdigit()\<close> for a non-empty \<open>s\<close>\<close>
  "upper_start s \<longleftrightarrow> (case s of [] \<Rightarrow> False | c # _ \<Rightarrow> is_upper c \<and> \<not> is_digit c)"

definition endswith_chr :: "ustr \<Rightarrow> nat \<Rightarrow> bool" where
  "endswith_chr s c \<longleftrightarrow> s \<noteq> [] \<and> last s = c"

definition glue :: "ustr \<Rightarrow> ustr \<Rightarrow> ustr" where
  \<comment> \<open>the first join of a line with its successor, through one space\<close>
  "glue current next_line =
     (if current \<noteq> [] \<and> \<not> endswith_chr current 32 \<and> \<not> startswith next_line [32]
      then current @ [32] @ next_line
      else strip (rev (dropWhile is_space (rev current)) @ [32] @ dropWhile is_space next_line))"

text \<open>
  The inner \<open>while\<close> of \<open>merge_lines_in_sentences\<close>: it appends following lines to
  \<open>current\<close> and returns the joined line with the number of lines it consumed.
\<close>

fun absorb :: "ustr \<Rightarrow> ustr list \<Rightarrow> ustr \<times> nat" where
  "absorb current [] = (current, 0)"
| "absorb current (l # ls) =
     (let next_line = strip l in
      if next_line = [] then (current, 0)
      else if ends_sentence next_line then (current @ [32] @ next_line, 1)
      else if upper_start next_line \<and> length next_line < 50 then (current, 0)
      else (case absorb (current @ [32] @ next_line) ls of (c, n) \<Rightarrow> (c, Suc n)))"

text \<open>
  The outer \<open>while\<close>: \<open>merge_from n ls\<close> is the list \<open>merged\<close> built from the lines
  \<open>ls\<close> after skipping the \<open>n\<close> lines that the inner loop has consumed (the index
  \<open>i\<close> of the source jumps by that many).
\<close>

fun merge_from :: "nat \<Rightarrow> ustr list \<Rightarrow> ustr list" where
  "merge_from n [] = []"
| "merge_from (Suc n) (l # ls) = merge_from n ls"
| "merge_from 0 (l # ls) =
     (let current = strip l in
      if current = [] then [] # merge_from 0 ls
      else if ends_sentence current then current # merge_from 0 ls
      else (case ls of
          [] \<Rightarrow> [current]
        | l' # ls' \<Rightarrow>
            (let next_line = strip l' in
             if next_line = [] then current # merge_from 0 ls
             else if upper_start next_line \<and> ends_colon current then current # merge_from 0 ls
             else if upper_start next_line \<and> \<not> endswith_chr current 44 \<and>
                     \<not> starts_capital (take 3 next_line) \<and> length current < 50
                  then current # merge_from 0 ls
             else (case absorb (glue current next_line) ls' of
                     (c, n) \<Rightarrow> c # merge_from (Suc n) ls))))"

definition merge_lines_in_sentences :: "ustr \<Rightarrow> ustr" where
  "merge_lines_in_sentences t = join_lines (merge_from 0 (split_lines t))"

definition clean_page_text :: "ustr \<Rightarrow> ustr" where
  \<comment> \<open>the rules of \<open>clean_text\<close>, in the order in which it applies them\<close>
  "clean_page_text t =
     merge_lines_in_sentences
       (remove_decorative
         (remove_page_numbers
           (remove_list_markers
             (fix_hyphenation t))))"

definition clean_page :: "page \<Rightarrow> page" where
  "clean_page d =
     \<lparr> full_text = clean_page_text (full_text d),
       top_left_title_raw = top_left_title_raw d,
       top_left_title_norm = top_left_title_norm d,
       composition = composition d \<rparr>"

definition clean_text :: "page_map \<Rightarrow> page_map" where
  "clean_text page_data = map (\<lambda>(page_num, d). (page_num, clean_page d)) page_data"


section \<open>assembler.py\<close>

datatype error = KeyError int | ExtractionFailed | UnicodeEncodeError

definition title_chr :: "(nat \<Rightarrow> bool) \<Rightarrow> nat \<Rightarrow> bool" where
  \<comment> \<open>a letter of the given alphabet, whitespace, \<open>-\<close>, \<open>.\<close> or \<open>,\<close>\<close>
  "title_chr letter c \<longleftrightarrow> letter c \<or> is_space c \<or> chr_in [45, 46, 44] c"

definition title_pattern :: "rx list" where
  \<comment> \<open>\<open>([A-YaYOa-yayo][A-YaYOa-yayo\s\-\.,]+?)\s*/\s*([a-zA-Z][a-zA-Z\s\-\.,]+?)\<close>
      with \<open>re.IGNORECASE\<close>; both classes are closed under case on the tables above\<close>
  "title_pattern =
     [Mark, Chr is_cyr, LazyPlus (title_chr is_cyr), Mark, Star is_space, Chr (chr_in [47]),
      Star is_space, Mark, Chr is_latin, LazyPlus (title_chr is_latin), Mark]"

definition word_artikul :: ustr where
  \<comment> \<open>the Russian word for "article (number)", capitalised: U+0410 U+0440 U+0442 U+0438 U+043A U+0443 U+043B\<close>
  "word_artikul = [1040, 1088, 1090, 1080, 1082, 1091, 1083]"

definition article_line :: "ustr \<Rightarrow> bool" where
  \<comment> \<open>\<open>re.search(r'Artikul\s+\d+', line, re.IGNORECASE)\<close>, the word in Cyrillic\<close>
  "article_line l \<longleftrightarrow> rx_found (lit_i word_artikul @ [Plus is_space, Plus is_digit]) l"

type_synonym title_lookup = "(ustr \<times> ustr \<times> ustr) list"

text \<open>
  The lookup table is a dictionary from the lowercased English string to the pair
  (Russian, English).  A Python dictionary iterates in insertion order and an
  assignment to a key that is present keeps the key's place, which is what
  \<open>AList.update\<close> does on an association list.
\<close>

definition lookup_insert :: "ustr \<Rightarrow> rmatch \<Rightarrow> title_lookup \<Rightarrow> title_lookup" where
  \<comment> \<open>the body of the inner loop of \<open>_build_title_lookup\<close> for one match\<close>
  "lookup_insert t m tbl =
     (let russian_full = strip (group1 t m);
          english_full_original = strip (group2 t m);
          english_full_lower = lower english_full_original
      in case map_of tbl english_full_lower of
           None \<Rightarrow> AList.update english_full_lower (russian_full, english_full_original) tbl
         | Some old \<Rightarrow>
             if length russian_full > length (fst old)
             then AList.update english_full_lower (russian_full, english_full_original) tbl
             else tbl)"

definition scan_page :: "page_map \<Rightarrow> int \<Rightarrow> title_lookup \<Rightarrow> error + title_lookup" where
  \<comment> \<open>one round of the outer loop: all matches of the title pattern in the page's text\<close>
  "scan_page pm page_num tbl =
     (case map_of pm page_num of
        None \<Rightarrow> Inl (KeyError page_num)
      | Some d \<Rightarrow> Inr (fold (lookup_insert (full_text d)) (finditer title_pattern (full_text d)) tbl))"

fun scan_pages :: "page_map \<Rightarrow> int list \<Rightarrow> title_lookup \<Rightarrow> error + title_lookup" where
  "scan_pages pm [] tbl = Inr tbl"
| "scan_pages pm (n # ns) tbl =
     (case scan_page pm n tbl of Inl e \<Rightarrow> Inl e | Inr tbl' \<Rightarrow> scan_pages pm ns tbl')"

definition build_title_lookup :: "page_map \<Rightarrow> error + title_lookup" where
  "build_title_lookup cleaned_by_page = scan_pages cleaned_by_page (take 5 (sorted_keys cleaned_by_page)) []"

fun first_index :: "('a \<Rightarrow> bool) \<Rightarrow> 'a list \<Rightarrow> nat option" where
  \<comment> \<open>the index at which the \<open>for ... enumerate ... break\<close> loops stop\<close>
  "first_index P [] = None"
| "first_index P (x # xs) =
     (if P x then Some 0 else (case first_index P xs of None \<Rightarrow> None | Some i \<Rightarrow> Some (Suc i)))"

definition found_any :: "ustr list \<Rightarrow> ustr \<Rightarrow> bool" where
  \<comment> \<open>\<open>re.search('w1|w2|...', line, re.IGNORECASE)\<close> for literal alternatives\<close>
  "found_any ws l \<longleftrightarrow> list_ex (\<lambda>w. rx_found (lit_i w) l) ws"

definition latin_only :: "ustr \<Rightarrow> bool" where
  \<comment> \<open>starts with a Latin letter and has no Cyrillic letter\<close>
  "latin_only l \<longleftrightarrow> rx_found [Bol, Chr is_latin] l \<and> \<not> rx_found [Chr is_cyr] l"

definition english_boilerplate :: "ustr list" where
  \<comment> \<open>artikul | article | ml (Cyrillic) | ml | home | professional\<close>
  "english_boilerplate =
     [[1072, 1088, 1090, 1080, 1082, 1091, 1083], asc ''article'', [1084, 1083], asc ''ml'',
      asc ''home'', asc ''professional'']"

definition english_candidate :: "ustr \<Rightarrow> bool" where
  \<comment> \<open>the tests under which the upward scan returns the stripped line\<close>
  "english_candidate l \<longleftrightarrow>
     l \<noteq> [] \<and> latin_only l \<and> \<not> found_any english_boilerplate l \<and> 3 \<le> length l \<and> length l \<le> 150"

definition lines_above :: "ustr list \<Rightarrow> nat \<Rightarrow> nat \<Rightarrow> ustr list" where
  \<comment> \<open>the stripped lines at indices \<open>idx - 1\<close> down to \<open>max(0, idx - w)\<close>, in that order\<close>
  "lines_above ls idx w = map strip (rev (take (idx - (idx - w)) (drop (idx - w) ls)))"

definition find_english_title_in_text :: "ustr \<Rightarrow> ustr option" where
  "find_english_title_in_text t =
     (let ls = split_lines t;
          article_line_idx = first_index article_line ls;
          above = (case article_line_idx of
                     None \<Rightarrow> None
                   | Some idx \<Rightarrow>
                       \<comment> \<open>\<open>if article_line_idx:\<close> is false for \<open>None\<close> and for \<open>0\<close>\<close>
                       if idx = 0 then None
                       else List.find english_candidate (lines_above ls idx 5))
      in case above of
           Some l \<Rightarrow> Some l
         | None \<Rightarrow>
             (case rx_search title_pattern t of
                Some m \<Rightarrow> Some (strip (group2 t m))
              | None \<Rightarrow> None))"

definition russian_boilerplate :: "ustr list" where
  \<comment> \<open>artikul | ml | domashnyaya | professionalnyj | lipidnyj | uroven | uvlazhneniya\<close>
  "russian_boilerplate =
     [[1072, 1088, 1090, 1080, 1082, 1091, 1083], [1084, 1083],
      [1076, 1086, 1084, 1072, 1096, 1085, 1103, 1103],
      [1087, 1088, 1086, 1092, 1077, 1089, 1089, 1080, 1086, 1085, 1072, 1083, 1100, 1085, 1099, 1081],
      [1083, 1080, 1087, 1080, 1076, 1085, 1099, 1081],
      [1091, 1088, 1086, 1074, 1077, 1085, 1100],
      [1091, 1074, 1083, 1072, 1078, 1085, 1077, 1085, 1080, 1103]]"

fun russian_parts :: "ustr list \<Rightarrow> ustr list \<Rightarrow> ustr list" where
  \<comment> \<open>the backward loop of \<open>_find_russian_title_before_article\<close> over the stripped lines\<close>
  "russian_parts [] acc = acc"
| "russian_parts (l # ls) acc =
     (if l = [] then russian_parts ls acc
      else if found_any russian_boilerplate l then russian_parts ls acc
      else if rx_found [Chr is_cyr] l \<and> 2 \<le> length l then russian_parts ls (l # acc)
      else if latin_only l then acc
      else russian_parts ls acc)"

definition find_russian_title_before_article :: "ustr \<Rightarrow> ustr option" where
  "find_russian_title_before_article t =
     (let ls = split_lines t in
      case first_index article_line ls of
        None \<Rightarrow> None
      | Some idx \<Rightarrow>
          (let parts = russian_parts (lines_above ls idx 8) [] in
           if parts \<noteq> [] then Some (join [32] parts) else None))"

definition truthy :: "ustr option \<Rightarrow> bool" where
  \<comment> \<open>the truth value of an \<open>Optional[str]\<close>: neither \<open>None\<close> nor \<open>''\<close>\<close>
  "truthy x = (case x of None \<Rightarrow> False | Some s \<Rightarrow> s \<noteq> [])"

definition str_of :: "ustr option \<Rightarrow> ustr" where
  \<comment> \<open>the string of a truthy \<open>Optional[str]\<close>\<close>
  "str_of x = (case x of None \<Rightarrow> [] | Some s \<Rightarrow> s)"

definition fuzzy_step ::
  "ustr \<Rightarrow> ustr \<times> ustr \<times> ustr \<Rightarrow> (ustr \<times> ustr) option \<times> nat \<Rightarrow> (ustr \<times> ustr) option \<times> nat" where
  \<comment> \<open>the body of the loop over \<open>title_lookup.items()\<close>; the state is
      \<open>(best_match, best_match_length)\<close>\<close>
  "fuzzy_step english_lower entry best =
     (let lookup_en_lower = fst entry; lookup_val = snd entry in
      if startswith lookup_en_lower english_lower then
        (if length lookup_en_lower > snd best then (Some lookup_val, length lookup_en_lower) else best)
      else if contains lookup_en_lower english_lower then
        (if length lookup_en_lower > snd best then (Some lookup_val, length lookup_en_lower) else best)
      else if 2 \<le> length english_lower \<and> length english_lower \<le> 4 \<and>
              startswith lookup_en_lower english_lower then
        (if length lookup_en_lower > snd best then (Some lookup_val, length lookup_en_lower) else best)
      else best)"

definition lookup_title :: "title_lookup \<Rightarrow> ustr \<Rightarrow> (ustr \<times> ustr) option" where
  \<comment> \<open>lines 183 to 221 of \<open>_resolve_full_title\<close>: the value of \<open>lookup_value\<close>\<close>
  "lookup_title tbl english_lower =
     (case map_of tbl english_lower of
        Some v \<Rightarrow> Some v
      | None \<Rightarrow> fst (fold (fuzzy_step english_lower) tbl (None, 0)))"

definition resolve_full_title :: "title_lookup \<Rightarrow> ustr \<Rightarrow> ustr \<Rightarrow> ustr" where
  "resolve_full_title tbl title_from_roi page_text =
     (let roi_match = rx_search title_pattern title_from_roi;
          roi_russian = (case roi_match of Some m \<Rightarrow> strip (group1 title_from_roi m)
                                         | None \<Rightarrow> strip title_from_roi);
          roi_english = (case roi_match of Some m \<Rightarrow> Some (strip (group2 title_from_roi m))
                                         | None \<Rightarrow> None);
          found = find_english_title_in_text page_text;
          english_title = (if \<not> truthy found \<and> truthy roi_english then roi_english else found)
      in case english_title of
           None \<Rightarrow> title_from_roi
         | Some en \<Rightarrow>
             if en = [] then title_from_roi
             else
               (let lookup_value = lookup_title tbl (lower en);
                    full_english = (case lookup_value of Some v \<Rightarrow> snd v | None \<Rightarrow> en);
                    r1 = (case lookup_value of Some v \<Rightarrow> Some (fst v) | None \<Rightarrow> None);
                    r2 = (if \<not> truthy r1 then find_russian_title_before_article page_text else r1);
                    full_russian = (if \<not> truthy r2 \<and> roi_russian \<noteq> [] then Some roi_russian else r2)
                in if truthy full_russian \<and> full_english \<noteq> []
                   then str_of full_russian @ asc '' / '' @ full_english
                   else if truthy full_russian then str_of full_russian
                   else if full_english \<noteq> [] then full_english
                   else title_from_roi))"

fun clean_lines :: "bool \<Rightarrow> ustr list \<Rightarrow> ustr list" where
  \<comment> \<open>the first loop of \<open>clean_block\<close>; the flag is \<open>prev_empty\<close>\<close>
  "clean_lines prev_empty [] = []"
| "clean_lines prev_empty (l # ls) =
     (if blank l then (if \<not> prev_empty then [] # clean_lines True ls else clean_lines True ls)
      else l # clean_lines False ls)"

definition cleaned_lines :: "ustr \<Rightarrow> ustr list" where
  \<comment> \<open>the list \<open>cleaned_lines\<close> after the two \<open>while\<close> loops, which pop blank lines from
      the front and from the back\<close>
  "cleaned_lines block_text =
     rev (dropWhile blank (rev (dropWhile blank (clean_lines False (split_lines block_text)))))"

definition clean_block :: "ustr \<Rightarrow> ustr" where
  "clean_block block_text = join_lines (cleaned_lines block_text)"

record gathered =
  page_texts :: "ustr list"
  first_page_text :: ustr
  first_page_composition :: ustr

fun gather :: "page_map \<Rightarrow> int list \<Rightarrow> gathered \<Rightarrow> error + gathered" where
  \<comment> \<open>the loop of \<open>_create_product_block\<close> over \<open>page_indices\<close>\<close>
  "gather pm [] g = Inr g"
| "gather pm (page_num # ns) g =
     (case map_of pm page_num of
        None \<Rightarrow> Inl (KeyError page_num)
      | Some d \<Rightarrow>
          if \<not> blank (full_text d) then
            gather pm ns
              (if first_page_text g = []
               then \<lparr> page_texts = page_texts g @ [full_text d],
                      first_page_text = full_text d,
                      first_page_composition = strip (composition d) \<rparr>
               else g \<lparr> page_texts := page_texts g @ [full_text d] \<rparr>)
          else gather pm ns g)"

definition create_product_block :: "title_lookup \<Rightarrow> ustr \<Rightarrow> int list \<Rightarrow> page_map \<Rightarrow> error + ustr" where
  "create_product_block tbl title page_indices cleaned_by_page =
     (case gather cleaned_by_page page_indices
             \<lparr> page_texts = [], first_page_text = [], first_page_composition = [] \<rparr> of
        Inl e \<Rightarrow> Inl e
      | Inr g \<Rightarrow>
          (let combined_text = join_blank (page_texts g);
               full_title = resolve_full_title tbl title combined_text;
               cleaned_text = clean_block combined_text;
               block_header = (if first_page_composition g \<noteq> []
                               then full_title @ [10] @ first_page_composition g
                               else full_title)
           in Inr (if \<not> blank cleaned_text then block_header @ [10, 10] @ cleaned_text
                   else block_header)))"

fun section_texts :: "page_map \<Rightarrow> int list \<Rightarrow> error + ustr list" where
  \<comment> \<open>the loop of \<open>_create_section_block\<close>\<close>
  "section_texts pm [] = Inr []"
| "section_texts pm (page_num # ns) =
     (case map_of pm page_num of
        None \<Rightarrow> Inl (KeyError page_num)
      | Some d \<Rightarrow>
          (case section_texts pm ns of
             Inl e \<Rightarrow> Inl e
           | Inr ts \<Rightarrow> Inr (if \<not> blank (full_text d) then full_text d # ts else ts)))"

definition create_section_block :: "int list \<Rightarrow> page_map \<Rightarrow> error + ustr" where
  "create_section_block page_indices cleaned_by_page =
     (case section_texts cleaned_by_page page_indices of
        Inl e \<Rightarrow> Inl e
      | Inr ts \<Rightarrow> Inr (clean_block (join_blank ts)))"

record asm_state =
  all_blocks :: "ustr list"
  current_product_title :: "ustr option"
  current_product_pages :: "int list"
  section_pages :: "int list"

definition close_product :: "title_lookup \<Rightarrow> page_map \<Rightarrow> asm_state \<Rightarrow> error + ustr list" where
  \<comment> \<open>\<open>if current_product_title and current_product_pages: all_blocks.append(...)\<close>\<close>
  "close_product tbl pm st =
     (case current_product_title st of
        None \<Rightarrow> Inr (all_blocks st)
      | Some title \<Rightarrow>
          if title \<noteq> [] \<and> current_product_pages st \<noteq> [] then
            (case create_product_block tbl title (current_product_pages st) pm of
               Inl e \<Rightarrow> Inl e
             | Inr b \<Rightarrow> Inr (all_blocks st @ [b]))
          else Inr (all_blocks st))"

definition asm_step :: "title_lookup \<Rightarrow> page_map \<Rightarrow> int \<Rightarrow> asm_state \<Rightarrow> error + asm_state" where
  \<comment> \<open>the body of the loop over \<open>sorted(cleaned_by_page.keys())\<close>\<close>
  "asm_step tbl pm page_num st =
     (case map_of pm page_num of
        None \<Rightarrow> Inl (KeyError page_num)
      | Some page_data \<Rightarrow>
          (let title_norm = strip (top_left_title_norm page_data) in
           if title_norm \<noteq> [] then
             (if Some title_norm \<noteq> current_product_title st then
                (case close_product tbl pm st of
                   Inl e \<Rightarrow> Inl e
                 | Inr blocks \<Rightarrow>
                     Inr (st \<lparr> all_blocks := blocks,
                               current_product_title := Some title_norm,
                               current_product_pages := [page_num] \<rparr>))
              else Inr (st \<lparr> current_product_pages := current_product_pages st @ [page_num] \<rparr>))
           else if truthy (current_product_title st)
             then Inr (st \<lparr> current_product_pages := current_product_pages st @ [page_num] \<rparr>)
             else Inr (st \<lparr> section_pages := section_pages st @ [page_num] \<rparr>)))"

fun asm_loop :: "title_lookup \<Rightarrow> page_map \<Rightarrow> int list \<Rightarrow> asm_state \<Rightarrow> error + asm_state" where
  "asm_loop tbl pm [] st = Inr st"
| "asm_loop tbl pm (n # ns) st =
     (case asm_step tbl pm n st of Inl e \<Rightarrow> Inl e | Inr st' \<Rightarrow> asm_loop tbl pm ns st')"

definition assemble_by_title_anchors :: "page_map \<Rightarrow> error + ustr list" where
  "assemble_by_title_anchors cleaned_by_page =
     (case build_title_lookup cleaned_by_page of
        Inl e \<Rightarrow> Inl e
      | Inr tbl \<Rightarrow>
          (case asm_loop tbl cleaned_by_page (sorted_keys cleaned_by_page)
                  \<lparr> all_blocks = [], current_product_title = None,
                    current_product_pages = [], section_pages = [] \<rparr> of
             Inl e \<Rightarrow> Inl e
           | Inr st \<Rightarrow>
               (case close_product tbl cleaned_by_page st of
                  Inl e \<Rightarrow> Inl e
                | Inr blocks \<Rightarrow>
                    if section_pages st \<noteq> [] then
                      (case create_section_block (section_pages st) cleaned_by_page of
                         Inl e \<Rightarrow> Inl e
                       | Inr section_block \<Rightarrow>
                           Inr (if \<not> blank section_block then section_block # blocks else blocks))
                    else Inr blocks)))"


section \<open>qc.py\<close>

datatype anchor_kind = Articles | ProductTitles | PhValues | Subheadings

definition article_pattern :: "rx list" where
  \<comment> \<open>\<open>Artikul\s+(\d+)\<close> (the word in Cyrillic) with \<open>re.IGNORECASE\<close>\<close>
  "article_pattern = lit_i word_artikul @ [Plus is_space, Mark, Plus is_digit, Mark]"

definition product_title_pattern :: "rx list" where
  \<comment> \<open>\<open>([A-YaYOa-yayo\s\-]+)\s*/\s*([A-Za-z\s\-]+)\<close>, case-sensitive\<close>
  "product_title_pattern =
     [Mark, Plus (\<lambda>c. is_cyr c \<or> is_space c \<or> c = 45), Mark, Star is_space, Chr (chr_in [47]),
      Star is_space, Mark, Plus (\<lambda>c. is_latin c \<or> is_space c \<or> c = 45), Mark]"

definition ph_pattern :: "rx list" where
  \<comment> \<open>\<open>\bpH\s*[=:]?\s*[\d.]+\<close> with \<open>re.IGNORECASE\<close>\<close>
  "ph_pattern =
     [WordB] @ lit_i (asc ''pH'') @
     [Star is_space, Opt (chr_in [61, 58]), Star is_space, Plus (\<lambda>c. is_digit c \<or> c = 46)]"

definition subheading_patterns :: "rx list list" where
  \<comment> \<open>\<open>^Dlya\s+\<close>, \<open>^Osnovnye\s+aktivnye\s+ingredienty\<close>, \<open>^Mekhanizm\s+dejstviya\<close>,
      \<open>^Ispolzovanie\<close>, \<open>^Osnovnye\s+preimushchestva\<close> (in Cyrillic), each with
      \<open>re.MULTILINE | re.IGNORECASE\<close>\<close>
  "subheading_patterns =
     [ [BolM] @ lit_i [1044, 1083, 1103] @ [Plus is_space],
       [BolM] @ lit_i [1054, 1089, 1085, 1086, 1074, 1085, 1099, 1077] @ [Plus is_space] @
         lit_i [1072, 1082, 1090, 1080, 1074, 1085, 1099, 1077] @ [Plus is_space] @
         lit_i [1080, 1085, 1075, 1088, 1077, 1076, 1080, 1077, 1085, 1090, 1099],
       [BolM] @ lit_i [1052, 1077, 1093, 1072, 1085, 1080, 1079, 1084] @ [Plus is_space] @
         lit_i [1076, 1077, 1081, 1089, 1090, 1074, 1080, 1103],
       [BolM] @ lit_i [1048, 1089, 1087, 1086, 1083, 1100, 1079, 1086, 1074, 1072, 1085, 1080, 1077],
       [BolM] @ lit_i [1054, 1089, 1085, 1086, 1074, 1085, 1099, 1077] @ [Plus is_space] @
         lit_i [1087, 1088, 1077, 1080, 1084, 1091, 1097, 1077, 1089, 1090, 1074, 1072] ]"

definition extract_anchors :: "ustr \<Rightarrow> anchor_kind \<Rightarrow> ustr set" where
  \<comment> \<open>the four loops shared by \<open>extract_anchors_from_raw\<close> and \<open>extract_anchors_from_cleaned\<close>\<close>
  "extract_anchors t kind =
     (case kind of
        Articles \<Rightarrow> set (map (group1 t) (finditer article_pattern t))
      | ProductTitles \<Rightarrow> set (map (\<lambda>m. strip (group0 t m)) (finditer product_title_pattern t))
      | PhValues \<Rightarrow> set (map (\<lambda>m. strip (group0 t m)) (finditer ph_pattern t))
      | Subheadings \<Rightarrow>
          set (concat (map (\<lambda>pat. map (\<lambda>m. strip (group0 t m)) (finditer pat t)) subheading_patterns)))"

definition extract_anchors_from_raw :: "(int \<times> ustr) list \<Rightarrow> anchor_kind \<Rightarrow> ustr set" where
  \<comment> \<open>\<open>full_raw_text = '\n'.join(raw_text_by_page.values())\<close>\<close>
  "extract_anchors_from_raw raw_text_by_page = extract_anchors (join_lines (map snd raw_text_by_page))"

definition extract_anchors_from_cleaned :: "ustr \<Rightarrow> anchor_kind \<Rightarrow> ustr set" where
  "extract_anchors_from_cleaned cleaned_text = extract_anchors cleaned_text"

definition anchor_kinds :: "anchor_kind list" where
  \<comment> \<open>the keys of the dictionary \<open>anchors\<close>, in insertion order\<close>
  "anchor_kinds = [Articles, ProductTitles, PhValues, Subheadings]"

definition find_missing_anchors ::
  "(anchor_kind \<Rightarrow> ustr set) \<Rightarrow> (anchor_kind \<Rightarrow> ustr set) \<Rightarrow> (anchor_kind \<times> ustr set) list" where
  \<comment> \<open>the dictionary \<open>missing\<close>: a kind is entered only when its difference is not empty\<close>
  "find_missing_anchors raw_anchors cleaned_anchors =
     map (\<lambda>k. (k, raw_anchors k - cleaned_anchors k))
         (filter (\<lambda>k. raw_anchors k - cleaned_anchors k \<noteq> {}) anchor_kinds)"

definition check_quality :: "(int \<times> ustr) list \<Rightarrow> ustr \<Rightarrow> bool" where
  \<comment> \<open>the value returned by \<open>generate_qc_report\<close>: \<open>True\<close> when \<open>missing\<close> is empty\<close>
  "check_quality raw_text_by_page cleaned_text \<longleftrightarrow>
     find_missing_anchors (extract_anchors_from_raw raw_text_by_page)
                          (extract_anchors_from_cleaned cleaned_text) = []"


section \<open>extractor.py and main.py\<close>

text \<open>
  The three readers (PyMuPDF, pdfplumber, Tesseract) are libraries outside the
  repository; \<open>PDFExtractor.extract\<close> (here \<open>extractor_extract\<close>) is modelled over what they return for the PDF at hand.  The
  first two catch their own exceptions and return a page map; \<open>extract_with_ocr\<close> can
  also raise, and runs only when the flag \<open>OCR_AVAILABLE\<close> is set.
\<close>

record readers =
  extract_with_pymupdf :: page_map
  extract_with_pdfplumber :: page_map
  OCR_AVAILABLE :: bool
  extract_with_ocr :: "error + page_map"

definition has_text :: "page_map \<Rightarrow> bool" where
  \<comment> \<open>\<open>result and any(data.get('full_text', '').strip() for data in result.values())\<close>\<close>
  "has_text result \<longleftrightarrow> result \<noteq> [] \<and> list_ex (\<lambda>(n, d). \<not> blank (full_text d)) result"

definition extractor_extract :: "readers \<Rightarrow> error + page_map" where
  "extractor_extract rd =
     (if has_text (extract_with_pymupdf rd) then Inr (extract_with_pymupdf rd)
      else if has_text (extract_with_pdfplumber rd) then Inr (extract_with_pdfplumber rd)
      else if OCR_AVAILABLE rd then
        (case extract_with_ocr rd of
           Inr result \<Rightarrow> if has_text result then Inr result else Inl ExtractionFailed
         | Inl e \<Rightarrow> Inl ExtractionFailed)
      else Inl ExtractionFailed)"

definition final_text :: "ustr list \<Rightarrow> ustr" where
  \<comment> \<open>the contents of \<open>cleaned.txt\<close>: the blocks with \<open>"\n\n"\<close> between them\<close>
  "final_text blocks = join_blank blocks"

definition raw_texts :: "page_map \<Rightarrow> (int \<times> ustr) list" where
  \<comment> \<open>\<open>raw_text_by_page_for_qc\<close>\<close>
  "raw_texts raw_text_by_page = map (\<lambda>(page_num, d). (page_num, full_text d)) raw_text_by_page"

text \<open>
  \<open>process_pdf_catalog\<close> writes the blocks to \<open>cleaned.txt\<close> and reads the file back
  before the quality check.  The file is opened in text mode with the encoding UTF-8:
  writing fails on a surrogate code point (U+D800..U+DFFF) and turns every \<open>'\n'\<close> into
  the line separator of the platform; reading turns \<open>'\r\n'\<close> and a lone \<open>'\r'\<close> into
  \<open>'\n'\<close> (universal newlines).
\<close>

datatype platform = Posix | Windows

definition linesep :: "platform \<Rightarrow> ustr" where
  \<comment> \<open>\<open>os.linesep\<close>\<close>
  "linesep pf = (case pf of Posix \<Rightarrow> [10] | Windows \<Rightarrow> [13, 10])"

definition utf8_encodable :: "ustr \<Rightarrow> bool" where
  "utf8_encodable s \<longleftrightarrow> list_all (\<lambda>c. c < 55296 \<or> 57343 < c) s"

definition write_text :: "platform \<Rightarrow> ustr \<Rightarrow> ustr" where
  \<comment> \<open>the characters that \<open>f.write(s)\<close> puts into a file opened with \<open>open(path, 'w')\<close>\<close>
  "write_text pf s = concat (map (\<lambda>c. if c = 10 then linesep pf else [c]) s)"

fun read_text :: "ustr \<Rightarrow> ustr" where
  \<comment> \<open>\<open>f.read()\<close> of a file opened with \<open>open(path, 'r')\<close> that holds the given characters\<close>
  "read_text [] = []"
| "read_text [c] = [if c = 13 then 10 else c]"
| "read_text (c # d # r) =
     (if c = 13 \<and> d = 10 then 10 # read_text r
      else if c = 13 then 10 # read_text (d # r)
      else c # read_text (d # r))"

definition process_pages :: "platform \<Rightarrow> page_map \<Rightarrow> error + bool" where
  \<comment> \<open>stages 2 to 4 of \<open>process_pdf_catalog\<close>: the value of \<open>qc_passed\<close>\<close>
  "process_pages pf raw_text_by_page =
     (case assemble_by_title_anchors (clean_text raw_text_by_page) of
        Inl e \<Rightarrow> Inl e
      | Inr blocks \<Rightarrow>
          if \<not> utf8_encodable (final_text blocks) then Inl UnicodeEncodeError
          else
            (let cleaned_text = read_text (write_text pf (final_text blocks))
             in Inr (check_quality (raw_texts raw_text_by_page) cleaned_text)))"

text \<open>
  The ordered strategy list of the design (an OCR entry only when the engine is
  available) and the success criterion of a strategy: it returned a page map in which
  at least one page has a body text that is not blank.
\<close>

definition strategies :: "readers \<Rightarrow> (error + page_map) list" where
  "strategies rd =
     [Inr (extract_with_pymupdf rd), Inr (extract_with_pdfplumber rd)] @
     (if OCR_AVAILABLE rd then [extract_with_ocr rd] else [])"

definition succeeded :: "error + page_map \<Rightarrow> bool" where
  "succeeded s = (case s of Inr r \<Rightarrow> has_text r | Inl e \<Rightarrow> False)"

text \<open>
  What the lookup builder reads: for every match of \<open>title_pattern\<close> in the first five
  pages, in ascending page order, the stripped groups 1 and 2 of the match.  These are
  the captures of the code's pattern, not the title pair as printed: group 2 ends in a
  lazy quantifier with nothing after it and so never holds more than two characters.
  \<open>with_key k\<close> keeps the captures whose lowercased group 2 is \<open>k\<close>; \<open>first_longest os v\<close>
  says that \<open>v\<close> is the first capture in \<open>os\<close> whose group 1 has the greatest length.
\<close>

definition occurrences :: "ustr \<Rightarrow> (ustr \<times> ustr) list" where
  "occurrences t = map (\<lambda>m. (strip (group1 t m), strip (group2 t m))) (finditer title_pattern t)"

definition toc_occurrences :: "page_map \<Rightarrow> (ustr \<times> ustr) list" where
  "toc_occurrences pm =
     concat (map (\<lambda>n. case map_of pm n of Some d \<Rightarrow> occurrences (full_text d) | None \<Rightarrow> [])
                 (take 5 (sorted_keys pm)))"

definition with_key :: "ustr \<Rightarrow> (ustr \<times> ustr) list \<Rightarrow> (ustr \<times> ustr) list" where
  "with_key k os = filter (\<lambda>e. lower (snd e) = k) os"

definition first_longest :: "(ustr \<times> ustr) list \<Rightarrow> ustr \<times> ustr \<Rightarrow> bool" where
  "first_longest os v \<longleftrightarrow>
     (\<exists>pre post. os = pre @ v # post \<and>
        (\<forall>e \<in> set pre. length (fst e) < length (fst v)) \<and>
        (\<forall>e \<in> set post. length (fst e) \<le> length (fst v)))"

definition ins :: "ustr \<times> ustr \<Rightarrow> title_lookup \<Rightarrow> title_lookup" where
  \<comment> \<open>\<open>lookup_insert\<close> as a function of the occurrence\<close>
  "ins e tbl =
     (case map_of tbl (lower (snd e)) of
        None \<Rightarrow> AList.update (lower (snd e)) e tbl
      | Some old \<Rightarrow>
          if length (fst e) > length (fst old) then AList.update (lower (snd e)) e tbl else tbl)"

definition keep :: "ustr \<times> ustr \<Rightarrow> (ustr \<times> ustr) option \<Rightarrow> (ustr \<times> ustr) option" where
  \<comment> \<open>what one occurrence does to the entry stored under its key\<close>
  "keep e cur =
     (case cur of
        None \<Rightarrow> Some e
      | Some old \<Rightarrow> if length (fst e) > length (fst old) then Some e else Some old)"

text \<open>
  \<open>best_containing tbl c v\<close>: \<open>v\<close> is the value of the first entry, in table order, whose
  key is the longest among the keys that contain the candidate \<open>c\<close>.
\<close>

definition best_containing :: "title_lookup \<Rightarrow> ustr \<Rightarrow> ustr \<times> ustr \<Rightarrow> bool" where
  "best_containing tbl c v \<longleftrightarrow>
     (\<exists>pre k post. tbl = pre @ (k, v) # post \<and> contains k c \<and>
        (\<forall>e \<in> set pre. contains (fst e) c \<longrightarrow> length (fst e) < length k) \<and>
        (\<forall>e \<in> set post. contains (fst e) c \<longrightarrow> length (fst e) \<le> length k))"

text \<open>Example inputs.\<close>

definition empty_page :: page where
  "empty_page = \<lparr> full_text = [], top_left_title_raw = [], top_left_title_norm = [], composition = [] \<rparr>"

definition toc_example :: page_map where
  \<comment> \<open>Page 0 reads "Krem / Cream" and, on the next line, "Grim / Crab" (Russian words in
      Cyrillic, both of four letters); page 7, the sixth page, reads "Maska / Cream".\<close>
  "toc_example =
     [(7, empty_page \<lparr> full_text := [1052, 1072, 1089, 1082, 1072, 32, 47, 32, 67, 114, 101, 97, 109] \<rparr>),
      (3, empty_page),
      (1, empty_page),
      (0, empty_page \<lparr> full_text := [1050, 1088, 1077, 1084, 32, 47, 32, 67, 114, 101, 97, 109, 10,
                                       1043, 1088, 1080, 1084, 32, 47, 32, 67, 114, 97, 98] \<rparr>),
      (2, empty_page),
      (4, empty_page)]"

definition toc_milk :: page_map where
  \<comment> \<open>one page that reads "Krem / Cleansing Milk" (the Russian word in Cyrillic)\<close>
  "toc_milk =
     [(0, empty_page \<lparr> full_text := [1050, 1088, 1077, 1084] @ asc '' / Cleansing Milk'' \<rparr>)]"

definition toc_cream_crab :: page_map where
  \<comment> \<open>one page that reads "Krem / Cream" and, on the next line, "Kraska / Crab" (the
      Russian words in Cyrillic, of four and six letters)\<close>
  "toc_cream_crab =
     [(0, empty_page \<lparr> full_text := [1050, 1088, 1077, 1084] @ asc '' / Cream'' @ [10] @
                                       [1050, 1088, 1072, 1089, 1082, 1072] @ asc '' / Crab'' \<rparr>)]"

definition milk_table :: title_lookup where
  "milk_table =
     [(asc ''milk'', ([1052], asc ''Milk'')),
      (asc ''cleansing milk'', ([1054, 1052], asc ''Cleansing Milk''))]"

definition article_then_title :: ustr where
  \<comment> \<open>"Artikul 1" (in Cyrillic) on the first line, "Krem / Cream" on the second\<close>
  "article_then_title =
     [1040, 1088, 1090, 1080, 1082, 1091, 1083, 32, 49, 10,
      1050, 1088, 1077, 1084, 32, 47, 32, 67, 114, 101, 97, 109]"

text \<open>
  The state machine of block assembly, read off the loop of
  \<open>assemble_by_title_anchors\<close>: \<open>product_groups\<close> walks the page numbers with the open
  product (its title and page list so far, or \<open>None\<close>) and returns each product's title
  and page list in the order in which the products are closed.  A page whose
  stripped title is not empty and differs from the open title closes the open product
  and opens a new one with that page; any other page joins the open product; with no
  product open, a page with an empty title belongs to the section.
\<close>

definition title_norm_of :: "page_map \<Rightarrow> int \<Rightarrow> ustr" where
  "title_norm_of pm n = (case map_of pm n of Some d \<Rightarrow> strip (top_left_title_norm d) | None \<Rightarrow> [])"

fun product_groups :: "page_map \<Rightarrow> (ustr \<times> int list) option \<Rightarrow> int list \<Rightarrow> (ustr \<times> int list) list" where
  "product_groups pm None [] = []"
| "product_groups pm (Some g) [] = [g]"
| "product_groups pm None (n # ns) =
     (if title_norm_of pm n \<noteq> [] then product_groups pm (Some (title_norm_of pm n, [n])) ns
      else product_groups pm None ns)"
| "product_groups pm (Some (t, ps)) (n # ns) =
     (if title_norm_of pm n \<noteq> [] \<and> title_norm_of pm n \<noteq> t
      then (t, ps) # product_groups pm (Some (title_norm_of pm n, [n])) ns
      else product_groups pm (Some (t, ps @ [n])) ns)"

definition section_prefix :: "page_map \<Rightarrow> int list \<Rightarrow> int list" where
  "section_prefix pm ns = takeWhile (\<lambda>n. title_norm_of pm n = []) ns"

text \<open>
  The text of a block as a function of its pages: the pages with a body text that is
  not blank, their texts, the composition taken from the first of them, the
  normalised body, and the block itself.
\<close>

definition body_pages :: "page_map \<Rightarrow> int list \<Rightarrow> page list" where
  "body_pages pm ns = filter (\<lambda>d. \<not> blank (full_text d)) (List.map_filter (map_of pm) ns)"

definition block_texts :: "page_map \<Rightarrow> int list \<Rightarrow> ustr list" where
  "block_texts pm ns = map full_text (body_pages pm ns)"

definition block_composition :: "page_map \<Rightarrow> int list \<Rightarrow> ustr" where
  "block_composition pm ns = (case body_pages pm ns of [] \<Rightarrow> [] | d # _ \<Rightarrow> strip (composition d))"

definition block_body :: "page_map \<Rightarrow> int list \<Rightarrow> ustr" where
  "block_body pm ns = clean_block (join_blank (block_texts pm ns))"

definition product_block :: "title_lookup \<Rightarrow> page_map \<Rightarrow> ustr \<times> int list \<Rightarrow> ustr" where
  "product_block tbl pm g =
     resolve_full_title tbl (fst g) (join_blank (block_texts pm (snd g))) @
     (if block_composition pm (snd g) = [] then [] else 10 # block_composition pm (snd g)) @
     (if block_body pm (snd g) = [] then [] else [10, 10] @ block_body pm (snd g))"

definition section_block :: "page_map \<Rightarrow> ustr" where
  "section_block pm =
     clean_block (join_blank (map full_text (body_pages pm (section_prefix pm (sorted_keys pm)))))"

text \<open>The loop state seen as the open product, and the invariant of the loop.\<close>

definition cur_of :: "asm_state \<Rightarrow> (ustr \<times> int list) option" where
  "cur_of st = (case current_product_title st of None \<Rightarrow> None
                | Some t \<Rightarrow> Some (t, current_product_pages st))"

definition asm_inv :: "page_map \<Rightarrow> asm_state \<Rightarrow> bool" where
  "asm_inv pm st \<longleftrightarrow>
     set (current_product_pages st) \<subseteq> fst ` set pm \<and>
     (case current_product_title st of None \<Rightarrow> True
      | Some t \<Rightarrow> t \<noteq> [] \<and> current_product_pages st \<noteq> [])"

definition open_block :: "title_lookup \<Rightarrow> page_map \<Rightarrow> asm_state \<Rightarrow> ustr list" where
  "open_block tbl pm st = (case cur_of st of None \<Rightarrow> [] | Some g \<Rightarrow> [product_block tbl pm g])"

text \<open>
  \<open>same_block gs p q\<close>: the pages \<open>p\<close>, \<open>q\<close> follow each other in the page list of one
  group.  \<open>adjacent_blocks gs p q\<close>: \<open>p\<close> is the last page of a group and \<open>q\<close> the first
  page of the next group.  \<open>good_group\<close>: the first page of a group carries the group's
  title, every other page has an empty title or the same title.
\<close>

definition same_block :: "(ustr \<times> int list) list \<Rightarrow> int \<Rightarrow> int \<Rightarrow> bool" where
  "same_block gs p q \<longleftrightarrow> (\<exists>G1 t ps1 ps2 G2. gs = G1 @ (t, ps1 @ p # q # ps2) # G2)"

definition adjacent_blocks :: "(ustr \<times> int list) list \<Rightarrow> int \<Rightarrow> int \<Rightarrow> bool" where
  "adjacent_blocks gs p q \<longleftrightarrow>
     (\<exists>G1 t1 ps1 t2 ps2 G2. gs = G1 @ (t1, ps1 @ [p]) # (t2, q # ps2) # G2)"

definition good_group :: "page_map \<Rightarrow> ustr \<times> int list \<Rightarrow> bool" where
  "good_group pm g \<longleftrightarrow>
     snd g \<noteq> [] \<and> fst g \<noteq> [] \<and> title_norm_of pm (hd (snd g)) = fst g \<and>
     list_all (\<lambda>n. title_norm_of pm n = [] \<or> title_norm_of pm n = fst g) (tl (snd g))"

text \<open>
  Normalised blank lines: no two blank lines in a row, no blank line first or last,
  and every blank line is the empty string.
\<close>

fun no_double_blank :: "ustr list \<Rightarrow> bool" where
  "no_double_blank [] = True"
| "no_double_blank [x] = True"
| "no_double_blank (x # y # zs) = (\<not> (blank x \<and> blank y) \<and> no_double_blank (y # zs))"

definition normal_lines :: "ustr list \<Rightarrow> bool" where
  "normal_lines ls \<longleftrightarrow>
     no_double_blank ls \<and>
     (ls = [] \<or> (\<not> blank (hd ls) \<and> \<not> blank (last ls))) \<and>
     list_all (\<lambda>l. blank l \<longrightarrow> l = []) ls"

text \<open>
  The normal form said through paragraphs.  A paragraph is a maximal run of lines that
  are not blank; \<open>paragraphs\<close> lists the paragraphs of a list of lines, whatever the
  number of blank lines between them, before the first and after the last.
  \<open>separated\<close> writes the paragraphs with exactly one empty line between two of them.
  \<open>rstrip_blank\<close> drops the blank lines at the end of a list of lines.
\<close>

function paragraphs :: "ustr list \<Rightarrow> ustr list list" where
  "paragraphs [] = []"
| "paragraphs (l # ls) =
     (if blank l then paragraphs ls
      else (l # takeWhile (\<lambda>x. \<not> blank x) ls) # paragraphs (dropWhile (\<lambda>x. \<not> blank x) ls))"
  by pat_completeness auto
termination
  by (relation "measure length") (auto simp: less_Suc_eq_le length_dropWhile_le)

fun separated :: "ustr list list \<Rightarrow> ustr list" where
  "separated [] = []"
| "separated [p] = p"
| "separated (p # q # ps) = p @ [[]] @ separated (q # ps)"

definition rstrip_blank :: "ustr list \<Rightarrow> ustr list" where
  "rstrip_blank xs = rev (dropWhile blank (rev xs))"

text \<open>Example inputs.\<close>

definition catalog_example :: page_map where
  \<comment> \<open>Page 0 has no title; pages 1 and 2 have the title "Krem / Cream", page 3 the title
      "Tonik / Tonic" (Russian words in Cyrillic).  The body texts are "Intro",
      "Artikul 111", "pH 5.5" and "Artikul 222".\<close>
  "catalog_example =
     [(2, \<lparr> full_text = asc ''pH 5.5'',
            top_left_title_raw = [1050, 1088, 1077, 1084, 32, 47, 32, 67, 114, 101, 97, 109],
            top_left_title_norm = [1050, 1088, 1077, 1084, 32, 47, 32, 67, 114, 101, 97, 109],
            composition = [] \<rparr>),
      (0, \<lparr> full_text = asc ''Intro'', top_left_title_raw = [], top_left_title_norm = [],
            composition = [] \<rparr>),
      (3, \<lparr> full_text = [1040, 1088, 1090, 1080, 1082, 1091, 1083, 32, 50, 50, 50],
            top_left_title_raw = [1058, 1086, 1085, 1080, 1082, 32, 47, 32, 84, 111, 110, 105, 99],
            top_left_title_norm = [1058, 1086, 1085, 1080, 1082, 32, 47, 32, 84, 111, 110, 105, 99],
            composition = [] \<rparr>),
      (1, \<lparr> full_text = [1040, 1088, 1090, 1080, 1082, 1091, 1083, 32, 49, 49, 49],
            top_left_title_raw = [1050, 1088, 1077, 1084, 32, 47, 32, 67, 114, 101, 97, 109],
            top_left_title_norm = [1050, 1088, 1077, 1084, 32, 47, 32, 67, 114, 101, 97, 109],
            composition = [] \<rparr>)]"

definition gel_example :: page_map where
  "gel_example =
     [(1, \<lparr> full_text = asc ''Body.'', top_left_title_raw = asc ''Gel'',
            top_left_title_norm = asc ''Gel'', composition = asc '' Aqua '' \<rparr>),
      (2, \<lparr> full_text = [10, 10] @ asc ''More'' @ [10, 10, 10, 10] @ asc ''End.'' @ [10],
            top_left_title_raw = [], top_left_title_norm = [], composition = asc ''Other'' \<rparr>)]"


definition lastp :: "nat option \<Rightarrow> ustr \<Rightarrow> nat option" where
  "lastp p u = (if u = [] then p else Some (last u))"


text \<open>
  \<open>joined t t'\<close>: the text \<open>t'\<close> is the text \<open>t\<close> without some of its segments, each of them
  a hyphen with the whitespace that follows it, standing between two word characters;
  every other character of \<open>t\<close> is in \<open>t'\<close>, in its place.  \<open>ends_hyphen_space s\<close>: the text
  \<open>s\<close> ends with a hyphen followed by whitespace.  \<open>join_shape i r ms\<close>: the text \<open>r\<close>
  starts with a word, a hyphen, whitespace and a word, and \<open>ms\<close> are the positions of a
  match of these four parts that starts at \<open>i\<close>.
\<close>

inductive joined :: "ustr \<Rightarrow> ustr \<Rightarrow> bool" where
  joined_Nil: "joined [] []"
| joined_keep: "joined t t' \<Longrightarrow> joined (c # t) (c # t')"
| joined_drop: "is_word a \<Longrightarrow> ws \<noteq> [] \<Longrightarrow> list_all is_space ws \<Longrightarrow> is_word b \<Longrightarrow>
                joined (b # t) t' \<Longrightarrow> joined (a # 45 # ws @ b # t) (a # t')"

code_pred joined .

definition ends_hyphen_space :: "ustr \<Rightarrow> bool" where
  "ends_hyphen_space s \<longleftrightarrow>
     s \<noteq> [] \<and> is_space (last s) \<and>
     (case dropWhile is_space (rev s) of [] \<Rightarrow> False | c # _ \<Rightarrow> c = 45)"


text \<open>Example inputs.\<close>

definition article_page :: page_map where
  \<comment> \<open>one page without title; its text is "Artikul" (in Cyrillic) and, on the next line, "123"\<close>
  "article_page = [(0, empty_page \<lparr> full_text := word_artikul @ [10] @ asc ''123'' \<rparr>)]"

definition heading_page :: page_map where
  \<comment> \<open>one page without title; its text is "Opisanie" and, on the next line, "Dlya litsa"
      (in Cyrillic: "Description", "For the face")\<close>
  "heading_page =
     [(0, empty_page \<lparr> full_text := [1054, 1087, 1080, 1089, 1072, 1085, 1080, 1077, 10,
                                       1044, 1083, 1103, 32, 1083, 1080, 1094, 1072] \<rparr>)]"

definition ph_page :: page_map where
  \<comment> \<open>one page without title; its text is "pH", a carriage return, "5.5"\<close>
  "ph_page = [(0, empty_page \<lparr> full_text := asc ''pH'' @ [13] @ asc ''5.5'' \<rparr>)]"

definition article_111 :: ustr where
  \<comment> \<open>"Artikul 111" (the word in Cyrillic)\<close>
  "article_111 = [1040, 1088, 1090, 1080, 1082, 1091, 1083, 32, 49, 49, 49]"


section \<open>Evaluation\<close>

text \<open>
  The definitions that the simplifier unfolds to run the model on a concrete input.
  \<open>clean_text\<close> is run through its list equations.
\<close>

lemma clean_text_simps:
  "clean_text [] = []"
  "clean_text ((n, d) # pm) = (n, clean_page d) # clean_text pm"
  by (simp_all add: clean_text_def)

lemmas char_defs =
  asc_def is_space_def is_digit_def is_latin_def is_cyr_def is_word_def is_upper_def
  to_lower_def lower_def chr_in_def is_letter_def title_chr_def word_before_def word_after_def

lemmas str_defs =
  strip_def blank_def split_lines_def join_lines_def join_blank_def slice_def
  endswith_chr_def

lemmas rx_defs =
  rx_search_def rx_found_def rx_match_start_def finditer_def m_end_def group0_def
  group1_def group2_def rx_sub_def lit_def lit_i_def groups12_def deleted_def

lemmas cleaner_defs =
  hyphen_space_def hyphen_newline_def letter_hyphen_space_def letter_hyphen_newline_def
  fix_hyphenation_def marker_bullet_def marker_dash_def marker_number_def marker_roman_def
  marker_letter_def strip_marker_def remove_list_markers_def page_number_patterns_def
  is_page_number_def remove_page_numbers_def decorative_def remove_decorative_def
  ends_sentence_def ends_colon_def starts_capital_def upper_start_def glue_def
  merge_lines_in_sentences_def clean_page_text_def clean_page_def clean_text_simps

lemmas assembler_defs =
  title_pattern_def word_artikul_def article_line_def lookup_insert_def scan_page_def
  build_title_lookup_def sorted_keys_def found_any_def latin_only_def english_boilerplate_def
  english_candidate_def lines_above_def find_english_title_in_text_def russian_boilerplate_def
  find_russian_title_before_article_def truthy_def str_of_def fuzzy_step_def lookup_title_def
  resolve_full_title_def cleaned_lines_def clean_block_def create_product_block_def create_section_block_def
  close_product_def asm_step_def assemble_by_title_anchors_def

lemmas example_defs =
  empty_page_def toc_example_def toc_milk_def toc_cream_crab_def milk_table_def article_then_title_def catalog_example_def
  gel_example_def article_page_def heading_page_def article_111_def ph_page_def

lemmas block_defs =
  title_norm_of_def section_prefix_def body_pages_def block_texts_def block_composition_def
  block_body_def product_block_def section_block_def List.map_filter_simps

lemmas qc_defs =
  article_pattern_def product_title_pattern_def ph_pattern_def subheading_patterns_def
  extract_anchors_def extract_anchors_from_raw_def extract_anchors_from_cleaned_def
  anchor_kinds_def find_missing_anchors_def check_quality_def final_text_def raw_texts_def
  process_pages_def utf8_encodable_def write_text_def linesep_def


section \<open>The cleaning stage changes the body text only (C6)\<close>

lemma map_of_clean_text:
  "map_of (clean_text pm) n = map_option clean_page (map_of pm n)"
  by (induction pm) (auto simp: clean_text_def)

text \<open>
  C6.  For every page map, \<open>clean_text\<close> returns a page map with the same page numbers
  in the same order; the page stored under a number is the input page with
  \<open>full_text\<close> replaced by its cleaned text, so \<open>top_left_title_raw\<close>,
  \<open>top_left_title_norm\<close> and \<open>composition\<close> of every output page equal those of the input
  page.
\<close>

theorem clean_text_frame:
  "map fst (clean_text pm) = map fst pm \<and>
   map_of (clean_text pm) n =
     map_option (\<lambda>d. d \<lparr> full_text := clean_page_text (full_text d) \<rparr>) (map_of pm n) \<and>
   map (top_left_title_raw \<circ> snd) (clean_text pm) = map (top_left_title_raw \<circ> snd) pm \<and>
   map (top_left_title_norm \<circ> snd) (clean_text pm) = map (top_left_title_norm \<circ> snd) pm \<and>
   map (composition \<circ> snd) (clean_text pm) = map (composition \<circ> snd) pm"
proof -
  have upd: "clean_page = (\<lambda>d. d \<lparr> full_text := clean_page_text (full_text d) \<rparr>)"
    by (rule ext) (simp add: clean_page_def)
  have keys: "map fst (clean_text pm) = map fst pm"
    by (induction pm) (auto simp: clean_text_def)
  have fields:
    "map (top_left_title_raw \<circ> snd) (clean_text pm) = map (top_left_title_raw \<circ> snd) pm"
    "map (top_left_title_norm \<circ> snd) (clean_text pm) = map (top_left_title_norm \<circ> snd) pm"
    "map (composition \<circ> snd) (clean_text pm) = map (composition \<circ> snd) pm"
    by (induction pm) (auto simp: clean_text_def clean_page_def)
  from keys fields map_of_clean_text [of pm n] show ?thesis
    by (simp add: upd)
qed


section \<open>The order of the extraction strategies (C4)\<close>

lemma has_text_nonempty: "has_text r \<Longrightarrow> r \<noteq> []"
  by (simp add: has_text_def)

text \<open>
  C4.  \<open>PDFExtractor.extract\<close> returns the result of the first strategy, in the order
  PyMuPDF, pdfplumber, OCR (OCR only when available), that yields a page with a
  non-blank body text; a strategy is passed over exactly when it yields none.  When
  it returns a page map, that map is not empty and has such a page; it raises exactly
  when no applicable strategy succeeded.
\<close>

theorem extract_first_success:
  "extractor_extract rd =
     (case List.find succeeded (strategies rd) of Some s \<Rightarrow> s | None \<Rightarrow> Inl ExtractionFailed) \<and>
   (case extractor_extract rd of
      Inr r \<Rightarrow> r \<noteq> [] \<and> has_text r
    | Inl e \<Rightarrow> e = ExtractionFailed \<and> list_all (\<lambda>s. \<not> succeeded s) (strategies rd))"
  by (auto simp: extractor_extract_def strategies_def succeeded_def has_text_nonempty
           split: sum.splits)


section \<open>An article code on the first line (C10)\<close>

lemma split_on_nonempty: "split_on d s \<noteq> []"
  by (induction s) (auto split: list.splits)

lemma split_lines_nonempty: "split_lines t \<noteq> []"
  by (simp add: split_lines_def split_on_nonempty)

text \<open>
  C10.  When line 0 of the text matches the article pattern, the index found is 0, the
  test \<open>if article_line_idx:\<close> fails as it does for \<open>None\<close>, the upward scan is skipped,
  and \<open>_find_english_title_in_text\<close> returns the stripped English group of the first
  match of the bilingual pattern in the text, or \<open>None\<close> when there is no match.
\<close>

theorem english_title_article_first:
  assumes "article_line (hd (split_lines t))"
  shows "first_index article_line (split_lines t) = Some 0 \<and>
         find_english_title_in_text t =
           (case rx_search title_pattern t of
              Some m \<Rightarrow> Some (strip (group2 t m))
            | None \<Rightarrow> None)"
proof -
  obtain l ls where ls: "split_lines t = l # ls"
    using split_lines_nonempty [of t] by (cases "split_lines t") auto
  with assms have idx: "first_index article_line (split_lines t) = Some 0"
    by simp
  then show ?thesis
    by (simp add: find_english_title_in_text_def)
qed

theorem english_title_article_first_witness:
  "article_line (hd (split_lines article_then_title)) \<and>
   find_english_title_in_text article_then_title = Some (asc ''Cr'')"
proof -
  have h: "article_line (hd (split_lines article_then_title))"
    by (simp add: example_defs char_defs str_defs rx_defs assembler_defs)
  have "(case rx_search title_pattern article_then_title of
           Some m \<Rightarrow> Some (strip (group2 article_then_title m))
         | None \<Rightarrow> None) = Some (asc ''Cr'')"
    by (simp add: example_defs char_defs str_defs rx_defs assembler_defs)
  with h english_title_article_first [OF h] show ?thesis
    by simp
qed


section \<open>The title lookup table (C5)\<close>

lemma keep_simps:
  "keep a None = Some a"
  "keep a (Some old) = (if length (fst a) > length (fst old) then Some a else Some old)"
  by (simp_all add: keep_def)

lemma lookup_insert_ins:
  "lookup_insert t m tbl = ins (strip (group1 t m), strip (group2 t m)) tbl"
  by (simp add: lookup_insert_def ins_def Let_def split: option.splits)

lemma fold_lookup_insert:
  "fold (lookup_insert t) ms tbl = fold ins (map (\<lambda>m. (strip (group1 t m), strip (group2 t m))) ms) tbl"
  by (induction ms arbitrary: tbl) (simp_all add: lookup_insert_ins)

lemma map_of_ins:
  "map_of (ins o' tbl) k = (if lower (snd o') = k then keep o' (map_of tbl k) else map_of tbl k)"
  by (auto simp: ins_def keep_simps update_conv' split: option.splits)

lemma map_of_fold_ins:
  "map_of (fold ins os tbl) k = fold keep (with_key k os) (map_of tbl k)"
  by (induction os arbitrary: tbl) (simp_all add: with_key_def map_of_ins)

lemma fold_keep_Some: "\<exists>w. fold keep vs (Some v) = Some w"
  by (induction vs arbitrary: v) (auto simp: keep_simps)

lemma fold_keep_from_Some:
  "fold keep vs (Some v) = Some w \<Longrightarrow>
     (w = v \<and> (\<forall>e \<in> set vs. length (fst e) \<le> length (fst v))) \<or>
     (length (fst v) < length (fst w) \<and> first_longest vs w)"
proof (induction vs arbitrary: v)
  case Nil
  then show ?case by simp
next
  case (Cons a vs)
  show ?case
  proof (cases "length (fst a) > length (fst v)")
    case True
    with Cons.prems have "fold keep vs (Some a) = Some w"
      by (simp add: keep_simps)
    from Cons.IH [OF this] show ?thesis
    proof
      assume "w = a \<and> (\<forall>e \<in> set vs. length (fst e) \<le> length (fst a))"
      then have "first_longest (a # vs) w"
        unfolding first_longest_def by (intro exI [of _ "[]"] exI [of _ vs]) simp
      with True \<open>w = a \<and> _\<close> show ?thesis by simp
    next
      assume *: "length (fst a) < length (fst w) \<and> first_longest vs w"
      then obtain pre post where "vs = pre @ w # post"
        "\<forall>e \<in> set pre. length (fst e) < length (fst w)"
        "\<forall>e \<in> set post. length (fst e) \<le> length (fst w)"
        unfolding first_longest_def by blast
      with * have "first_longest (a # vs) w"
        unfolding first_longest_def by (intro exI [of _ "a # pre"] exI [of _ post]) simp
      with True * show ?thesis by simp
    qed
  next
    case False
    with Cons.prems have "fold keep vs (Some v) = Some w"
      by (simp add: keep_simps)
    from Cons.IH [OF this] show ?thesis
    proof
      assume "w = v \<and> (\<forall>e \<in> set vs. length (fst e) \<le> length (fst v))"
      with False show ?thesis by simp
    next
      assume *: "length (fst v) < length (fst w) \<and> first_longest vs w"
      then obtain pre post where "vs = pre @ w # post"
        "\<forall>e \<in> set pre. length (fst e) < length (fst w)"
        "\<forall>e \<in> set post. length (fst e) \<le> length (fst w)"
        unfolding first_longest_def by blast
      with * False have "first_longest (a # vs) w"
        unfolding first_longest_def by (intro exI [of _ "a # pre"] exI [of _ post]) simp
      with * show ?thesis by simp
    qed
  qed
qed

lemma fold_keep_None:
  "fold keep vs None = (case vs of [] \<Rightarrow> None | _ \<Rightarrow> fold keep vs None)"
  by (cases vs) simp_all

lemma fold_keep_first_longest:
  "(fold keep vs None = None \<longleftrightarrow> vs = []) \<and>
   (\<forall>w. fold keep vs None = Some w \<longrightarrow> first_longest vs w)"
proof (cases vs)
  case Nil
  then show ?thesis by simp
next
  case (Cons a vs')
  have step: "fold keep vs None = fold keep vs' (Some a)"
    by (simp add: Cons keep_simps)
  have "first_longest vs w" if "fold keep vs' (Some a) = Some w" for w
    using fold_keep_from_Some [OF that]
  proof
    assume "w = a \<and> (\<forall>e \<in> set vs'. length (fst e) \<le> length (fst a))"
    then show ?thesis
      unfolding first_longest_def Cons by (intro exI [of _ "[]"] exI [of _ vs']) simp
  next
    assume *: "length (fst a) < length (fst w) \<and> first_longest vs' w"
    then obtain pre post where "vs' = pre @ w # post"
      "\<forall>e \<in> set pre. length (fst e) < length (fst w)"
      "\<forall>e \<in> set post. length (fst e) \<le> length (fst w)"
      unfolding first_longest_def by blast
    with * show ?thesis
      unfolding first_longest_def Cons by (intro exI [of _ "a # pre"] exI [of _ post]) simp
  qed
  with step fold_keep_Some [of vs' a] Cons show ?thesis
    by auto
qed

lemma scan_pages_ok:
  "set ns \<subseteq> fst ` set pm \<Longrightarrow>
   scan_pages pm ns tbl =
     Inr (fold ins (concat (map (\<lambda>n. case map_of pm n of Some d \<Rightarrow> occurrences (full_text d)
                                      | None \<Rightarrow> []) ns)) tbl)"
proof (induction ns arbitrary: tbl)
  case Nil
  then show ?case by simp
next
  case (Cons n ns)
  then obtain d where d: "map_of pm n = Some d"
    by (cases "map_of pm n") (auto simp: map_of_eq_None_iff)
  with Cons show ?case
    by (simp add: scan_page_def fold_lookup_insert occurrences_def)
qed

lemma first_keys_subset: "set (take k (sorted_keys pm)) \<subseteq> fst ` set pm"
  using set_take_subset [of k "sorted_keys pm"] by (auto simp: sorted_keys_def)

lemma build_title_lookup_fold:
  "build_title_lookup pm = Inr (fold ins (toc_occurrences pm) [])"
  by (simp add: build_title_lookup_def toc_occurrences_def scan_pages_ok first_keys_subset)

text \<open>
  \<open>_build_title_lookup\<close> never fails.  Its table is built from the matches of the title
  pattern in the first five pages in ascending page order only; every entry is stored
  under the lowercased group 2 of a match, and the entry under a key is the first
  capture with that key whose group 1 is longest: every earlier capture with the key is
  strictly shorter, no later one is longer.
\<close>

lemma build_title_lookup_first_longest:
  "\<exists>tbl. build_title_lookup pm = Inr tbl \<and>
     (\<forall>k. case map_of tbl k of
             None \<Rightarrow> with_key k (toc_occurrences pm) = []
           | Some v \<Rightarrow> lower (snd v) = k \<and> first_longest (with_key k (toc_occurrences pm)) v)"
proof -
  let ?tbl = "fold ins (toc_occurrences pm) []"
  have "case map_of ?tbl k of
          None \<Rightarrow> with_key k (toc_occurrences pm) = []
        | Some v \<Rightarrow> lower (snd v) = k \<and> first_longest (with_key k (toc_occurrences pm)) v" for k
  proof (cases "map_of ?tbl k")
    case None
    then show ?thesis
      using fold_keep_first_longest [of "with_key k (toc_occurrences pm)"]
      by (simp add: map_of_fold_ins)
  next
    case (Some v)
    then have fl: "first_longest (with_key k (toc_occurrences pm)) v"
      using fold_keep_first_longest [of "with_key k (toc_occurrences pm)"]
      by (simp add: map_of_fold_ins)
    then have "v \<in> set (with_key k (toc_occurrences pm))"
      unfolding first_longest_def by auto
    then have "lower (snd v) = k"
      by (simp add: with_key_def)
    with fl Some show ?thesis by simp
  qed
  then show ?thesis
    by (intro exI [of _ ?tbl]) (simp add: build_title_lookup_fold)
qed

lemma build_title_lookup_toc_example:
  "build_title_lookup toc_example = Inr [(asc ''cr'', ([1050, 1088, 1077, 1084], asc ''Cr''))] \<and>
   first_longest (with_key (asc ''cr'') (toc_occurrences toc_example))
     ([1050, 1088, 1077, 1084], asc ''Cr'')"
proof -
  have ev: "build_title_lookup toc_example = Inr [(asc ''cr'', ([1050, 1088, 1077, 1084], asc ''Cr''))]"
    by (simp add: example_defs char_defs str_defs rx_defs assembler_defs)
  from build_title_lookup_first_longest [of toc_example] obtain tbl where
    tbl: "build_title_lookup toc_example = Inr tbl" and
    all: "\<And>k. case map_of tbl k of
                 None \<Rightarrow> with_key k (toc_occurrences toc_example) = []
               | Some v \<Rightarrow> lower (snd v) = k \<and> first_longest (with_key k (toc_occurrences toc_example)) v"
    by blast
  from tbl ev have "tbl = [(asc ''cr'', ([1050, 1088, 1077, 1084], asc ''Cr''))]"
    by simp
  with all [of "asc ''cr''"] ev show ?thesis
    by simp
qed

text \<open>
  C5.  The builder scans the first five pages in ascending order and on a collision
  keeps the first entry with the longest Russian string, as stated above, but the key
  is not the lowercased English span of the title pair.  The second group of
  \<open>title_pattern\<close> is \<open>([a-zA-Z][a-zA-Z\s\-\.,]+?)\<close>; the lazy quantifier ends the pattern
  and stops after one character.  For the page "Krem / Cleansing Milk" the table holds
  the one key "cl" with the English string "Cl", and nothing under "cleansing milk".
  Two titles that agree on their first two letters collide: of "Krem / Cream" and
  "Kraska / Crab" the table keeps the one entry "cr" with the Russian string "Kraska"
  and the English string "Cr".
\<close>

theorem title_lookup_key_truncated:
  "build_title_lookup toc_milk = Inr [(asc ''cl'', ([1050, 1088, 1077, 1084], asc ''Cl''))] \<and>
   lower (asc ''Cleansing Milk'') = asc ''cleansing milk'' \<and>
   map_of [(asc ''cl'', ([1050, 1088, 1077, 1084], asc ''Cl''))] (asc ''cleansing milk'') = None \<and>
   build_title_lookup toc_cream_crab =
     Inr [(asc ''cr'', ([1050, 1088, 1072, 1089, 1082, 1072], asc ''Cr''))]"
proof -
  have a: "build_title_lookup toc_milk = Inr [(asc ''cl'', ([1050, 1088, 1077, 1084], asc ''Cl''))]"
    by (simp add: example_defs char_defs str_defs rx_defs assembler_defs)
  have b: "lower (asc ''Cleansing Milk'') = asc ''cleansing milk''"
    by (simp add: char_defs)
  have c: "map_of [(asc ''cl'', ([1050, 1088, 1077, 1084], asc ''Cl''))] (asc ''cleansing milk'') = None"
    by (simp add: asc_def)
  have d: "build_title_lookup toc_cream_crab =
     Inr [(asc ''cr'', ([1050, 1088, 1072, 1089, 1082, 1072], asc ''Cr''))]"
    by (simp add: example_defs char_defs str_defs rx_defs assembler_defs)
  from a b c d show ?thesis by simp
qed


section \<open>Fuzzy resolution against the lookup table (C3)\<close>

lemma startswith_contains: "startswith k c \<Longrightarrow> contains k c"
  by (cases k) (auto elim: startswith.elims)

lemma contains_Nil: "contains [] c \<longleftrightarrow> c = []"
  by simp

lemma fuzzy_step_eq:
  "fuzzy_step c (k, v) best =
     (if contains k c \<and> length k > snd best then (Some v, length k) else best)"
  using startswith_contains [of k c] by (auto simp: fuzzy_step_def Let_def)

lemma fold_fuzzy_step:
  "fold (fuzzy_step c) tbl (bm, bl) = (rm, rl) \<Longrightarrow>
     (rm = bm \<and> rl = bl \<and> (\<forall>e \<in> set tbl. contains (fst e) c \<longrightarrow> length (fst e) \<le> bl)) \<or>
     (\<exists>pre k v post. tbl = pre @ (k, v) # post \<and> rm = Some v \<and> rl = length k \<and>
        contains k c \<and> bl < length k \<and>
        (\<forall>e \<in> set pre. contains (fst e) c \<longrightarrow> length (fst e) < length k) \<and>
        (\<forall>e \<in> set post. contains (fst e) c \<longrightarrow> length (fst e) \<le> length k))"
proof (induction tbl arbitrary: bm bl)
  case Nil
  then show ?case by simp
next
  case (Cons a tbl)
  obtain k v where a: "a = (k, v)" by (cases a)
  show ?case
  proof (cases "contains k c \<and> length k > bl")
    case True
    with Cons.prems a have "fold (fuzzy_step c) tbl (Some v, length k) = (rm, rl)"
      by (simp add: fuzzy_step_eq)
    from Cons.IH [OF this] show ?thesis
    proof (elim disjE exE conjE)
      assume "rm = Some v" "rl = length k"
        "\<forall>e \<in> set tbl. contains (fst e) c \<longrightarrow> length (fst e) \<le> length k"
      with True a show ?thesis
        by (intro disjI2 exI [of _ "[]"] exI [of _ k] exI [of _ v] exI [of _ tbl]) simp
    next
      fix pre k' v' post
      assume "tbl = pre @ (k', v') # post" "rm = Some v'" "rl = length k'" "contains k' c"
        "length k < length k'"
        "\<forall>e \<in> set pre. contains (fst e) c \<longrightarrow> length (fst e) < length k'"
        "\<forall>e \<in> set post. contains (fst e) c \<longrightarrow> length (fst e) \<le> length k'"
      with True a show ?thesis
        by (intro disjI2 exI [of _ "a # pre"] exI [of _ k'] exI [of _ v'] exI [of _ post]) simp
    qed
  next
    case False
    with Cons.prems a have "fold (fuzzy_step c) tbl (bm, bl) = (rm, rl)"
      by (simp add: fuzzy_step_eq)
    from Cons.IH [OF this] show ?thesis
    proof (elim disjE exE conjE)
      assume "rm = bm" "rl = bl"
        "\<forall>e \<in> set tbl. contains (fst e) c \<longrightarrow> length (fst e) \<le> bl"
      with False a show ?thesis
        by (intro disjI1) auto
    next
      fix pre k' v' post
      assume "tbl = pre @ (k', v') # post" "rm = Some v'" "rl = length k'" "contains k' c"
        "bl < length k'"
        "\<forall>e \<in> set pre. contains (fst e) c \<longrightarrow> length (fst e) < length k'"
        "\<forall>e \<in> set post. contains (fst e) c \<longrightarrow> length (fst e) \<le> length k'"
      with False a show ?thesis
        by (intro disjI2 exI [of _ "a # pre"] exI [of _ k'] exI [of _ v'] exI [of _ post]) auto
    qed
  qed
qed

text \<open>
  C3 as stated fails: an entry whose key starts with the candidate is not preferred
  over an entry whose key only contains it.  All three variants of the loop share one
  \<open>best_match_length\<close>, so the entries compete by key length alone, and on equal
  lengths the entry met first stays.  With the keys \<open>ba\<close> and \<open>ab\<close> (in this order) the
  candidate \<open>a\<close> selects \<open>ba\<close>; with the keys \<open>milky\<close> and \<open>cleansing milk\<close> the candidate
  \<open>milk\<close> selects \<open>cleansing milk\<close>.
\<close>

theorem lookup_title_prefix_not_preferred:
  "startswith (asc ''ab'') (asc ''a'') \<and> \<not> startswith (asc ''ba'') (asc ''a'') \<and>
   contains (asc ''ba'') (asc ''a'') \<and>
   lookup_title [(asc ''ba'', ([1073, 1072], asc ''ba'')), (asc ''ab'', ([1072, 1073], asc ''ab''))]
                (asc ''a'')
     = Some ([1073, 1072], asc ''ba'') \<and>
   startswith (asc ''milky'') (asc ''milk'') \<and>
   \<not> startswith (asc ''cleansing milk'') (asc ''milk'') \<and>
   contains (asc ''cleansing milk'') (asc ''milk'') \<and>
   lookup_title [(asc ''milky'', ([1052], asc ''Milky'')),
                 (asc ''cleansing milk'', ([1054, 1052], asc ''Cleansing Milk''))]
                (asc ''milk'')
     = Some ([1054, 1052], asc ''Cleansing Milk'')"
  by (simp add: lookup_title_def fuzzy_step_def asc_def)

text \<open>
  C3, amended.  A candidate that is a key of the table selects its own entry.
  Otherwise the selected entry is the first one, in table order, with the longest key
  among the keys that contain the candidate as a substring (a key that starts with
  the candidate contains it); no entry is selected when no non-empty key contains the
  candidate.  The short-candidate rule never applies, since a key that starts with the
  candidate is taken by the first rule.
\<close>

theorem lookup_title_longest_containing:
  "(case map_of tbl c of
      Some v \<Rightarrow> lookup_title tbl c = Some v
    | None \<Rightarrow>
        (case lookup_title tbl c of
           Some v \<Rightarrow> best_containing tbl c v
         | None \<Rightarrow> (\<forall>e \<in> set tbl. contains (fst e) c \<longrightarrow> fst e = [])))"
proof (cases "map_of tbl c")
  case (Some v)
  then show ?thesis by (simp add: lookup_title_def)
next
  case None
  obtain rm rl where r: "fold (fuzzy_step c) tbl (None, 0) = (rm, rl)"
    by (cases "fold (fuzzy_step c) tbl (None, 0)")
  then have lt: "lookup_title tbl c = rm"
    by (simp add: lookup_title_def None)
  from fold_fuzzy_step [OF r] show ?thesis
  proof (elim disjE exE conjE)
    assume "rm = None" "\<forall>e \<in> set tbl. contains (fst e) c \<longrightarrow> length (fst e) \<le> 0"
    with None lt show ?thesis by simp
  next
    fix pre k v post
    assume "tbl = pre @ (k, v) # post" "rm = Some v" "contains k c"
      "\<forall>e \<in> set pre. contains (fst e) c \<longrightarrow> length (fst e) < length k"
      "\<forall>e \<in> set post. contains (fst e) c \<longrightarrow> length (fst e) \<le> length k"
    then have "best_containing tbl c v"
      unfolding best_containing_def by blast
    with None lt \<open>rm = Some v\<close> show ?thesis by simp
  qed
qed

theorem lookup_title_longest_containing_witness:
  "lookup_title [(asc ''cleansing milk'', ([1054, 1052], asc ''Cleansing Milk''))] (asc ''cleans'')
     = Some ([1054, 1052], asc ''Cleansing Milk'') \<and>
   lookup_title milk_table (asc ''ilk'') = Some ([1054, 1052], asc ''Cleansing Milk'') \<and>
   best_containing milk_table (asc ''ilk'') ([1054, 1052], asc ''Cleansing Milk'')"
proof -
  have none: "map_of milk_table (asc ''ilk'') = None"
    by (simp add: milk_table_def asc_def)
  have ev: "lookup_title milk_table (asc ''ilk'') = Some ([1054, 1052], asc ''Cleansing Milk'')"
    by (simp add: lookup_title_def fuzzy_step_def asc_def milk_table_def)
  have one: "lookup_title [(asc ''cleansing milk'', ([1054, 1052], asc ''Cleansing Milk''))]
               (asc ''cleans'') = Some ([1054, 1052], asc ''Cleansing Milk'')"
    by (simp add: lookup_title_def fuzzy_step_def asc_def)
  from lookup_title_longest_containing [of milk_table "asc ''ilk''"] none ev one
  show ?thesis by simp
qed


section \<open>Blank lines of a block (C9)\<close>

lemma blank_Nil: "blank []"
  by (simp add: blank_def strip_def)

lemma blank_iff: "blank s \<longleftrightarrow> (\<forall>c \<in> set s. is_space c)"
proof
  assume "blank s"
  then have "dropWhile is_space (rev (dropWhile is_space s)) = []"
    by (simp add: blank_def strip_def)
  then have all: "\<forall>c \<in> set (dropWhile is_space s). is_space c"
    by (simp add: dropWhile_eq_Nil_conv)
  have "dropWhile is_space s = []"
  proof (rule ccontr)
    assume ne: "dropWhile is_space s \<noteq> []"
    then have "\<not> is_space (hd (dropWhile is_space s))"
      by (rule hd_dropWhile)
    moreover from ne have "hd (dropWhile is_space s) \<in> set (dropWhile is_space s)"
      by (rule hd_in_set)
    ultimately show False using all by blast
  qed
  then show "\<forall>c \<in> set s. is_space c"
    by (simp add: dropWhile_eq_Nil_conv)
next
  assume "\<forall>c \<in> set s. is_space c"
  then show "blank s"
    by (auto simp: blank_def strip_def dest: set_dropWhileD)
qed

lemma nonblank_nonempty: "\<not> blank s \<Longrightarrow> s \<noteq> []"
  by (auto simp: blank_def strip_def)

lemma no_double_blank_snoc:
  "no_double_blank (xs @ [a]) \<longleftrightarrow> no_double_blank xs \<and> (xs = [] \<or> \<not> (blank (last xs) \<and> blank a))"
  by (induction xs rule: no_double_blank.induct) auto

lemma no_double_blank_Cons:
  "no_double_blank (x # xs) \<longleftrightarrow> (xs = [] \<or> \<not> (blank x \<and> blank (hd xs))) \<and> no_double_blank xs"
  by (cases xs) auto

lemma no_double_blank_rev: "no_double_blank (rev xs) = no_double_blank xs"
proof (induction xs)
  case Nil
  show ?case by simp
next
  case (Cons x xs)
  have "no_double_blank (rev (x # xs)) \<longleftrightarrow>
        no_double_blank (rev xs) \<and> (rev xs = [] \<or> \<not> (blank (last (rev xs)) \<and> blank x))"
    by (simp add: no_double_blank_snoc del: no_double_blank.simps)
  also have "\<dots> \<longleftrightarrow> no_double_blank xs \<and> (xs = [] \<or> \<not> (blank (hd xs) \<and> blank x))"
    using Cons.IH by (cases "xs = []") (simp_all add: last_rev)
  also have "\<dots> \<longleftrightarrow> no_double_blank (x # xs)"
    unfolding no_double_blank_Cons by blast
  finally show ?case .
qed

lemma no_double_blank_suffix: "no_double_blank (xs @ ys) \<Longrightarrow> no_double_blank ys"
proof (induction xs)
  case Nil
  then show ?case by simp
next
  case (Cons x xs)
  then show ?case
    by (cases "xs @ ys") auto
qed

lemma no_double_blank_dropWhile: "no_double_blank xs \<Longrightarrow> no_double_blank (dropWhile P xs)"
  using no_double_blank_suffix [of "takeWhile P xs" "dropWhile P xs"] by simp

lemma clean_lines_no_double:
  "no_double_blank (clean_lines b ls) \<and>
   (b \<longrightarrow> clean_lines b ls = [] \<or> \<not> blank (hd (clean_lines b ls)))"
proof (induction ls arbitrary: b)
  case Nil
  show ?case by simp
next
  case (Cons l ls)
  show ?case
  proof (cases "blank l")
    case True
    from Cons.IH [of True] show ?thesis
      using True blank_Nil by (cases "clean_lines True ls") auto
  next
    case False
    from Cons.IH [of False] show ?thesis
      using False by (cases "clean_lines False ls") auto
  qed
qed

lemma clean_lines_blank_empty: "list_all (\<lambda>l. blank l \<longrightarrow> l = []) (clean_lines b ls)"
  by (induction ls arbitrary: b) auto

lemma clean_lines_filter:
  "filter (\<lambda>l. \<not> blank l) (clean_lines b ls) = filter (\<lambda>l. \<not> blank l) ls"
  by (induction ls arbitrary: b) (auto simp: blank_Nil)

lemma filter_dropWhile_not: "filter (\<lambda>l. \<not> P l) (dropWhile P xs) = filter (\<lambda>l. \<not> P l) xs"
  by (induction xs) auto

lemma rev_dropWhile_rev_prefix: "xs = rev (dropWhile P (rev xs)) @ rev (takeWhile P (rev xs))"
  by (metis rev_append rev_rev_ident takeWhile_dropWhile_id)

lemma cleaned_lines_normal: "normal_lines (cleaned_lines t)"
proof -
  let ?xs = "clean_lines False (split_lines t)"
  let ?ys = "dropWhile blank ?xs"
  let ?zs = "rev (dropWhile blank (rev ?ys))"
  have nd: "no_double_blank ?zs"
    using clean_lines_no_double [of False "split_lines t"]
    by (simp add: no_double_blank_rev no_double_blank_dropWhile)
  have "set ?zs \<subseteq> set ?xs"
    by (auto dest!: set_dropWhileD)
  with clean_lines_blank_empty [of False "split_lines t"]
  have be: "list_all (\<lambda>l. blank l \<longrightarrow> l = []) ?zs"
    unfolding list_all_iff by blast
  have ends: "\<not> blank (hd ?zs) \<and> \<not> blank (last ?zs)" if ne: "?zs \<noteq> []"
  proof
    from ne have "dropWhile blank (rev ?ys) \<noteq> []" by simp
    then have "\<not> blank (hd (dropWhile blank (rev ?ys)))" by (rule hd_dropWhile)
    with ne show "\<not> blank (last ?zs)" by (simp add: last_rev)
    have "?ys = ?zs @ rev (takeWhile blank (rev ?ys))"
      by (rule rev_dropWhile_rev_prefix)
    with ne have hd: "hd ?ys = hd ?zs" by (metis hd_append2)
    from ne have "?ys \<noteq> []"
      by (metis dropWhile.simps(1) rev.simps(1))
    then have "\<not> blank (hd ?ys)" by (rule hd_dropWhile)
    with hd show "\<not> blank (hd ?zs)" by simp
  qed
  from nd be ends show ?thesis
    unfolding normal_lines_def cleaned_lines_def by blast
qed

lemma filter_rev_dropWhile_rev:
  "filter (\<lambda>l. \<not> P l) (rev (dropWhile P (rev xs))) = filter (\<lambda>l. \<not> P l) xs"
proof -
  have "filter (\<lambda>l. \<not> P l) (rev (dropWhile P (rev xs))) =
        rev (filter (\<lambda>l. \<not> P l) (dropWhile P (rev xs)))"
    by (rule rev_filter [symmetric])
  also have "\<dots> = rev (filter (\<lambda>l. \<not> P l) (rev xs))"
    by (simp only: filter_dropWhile_not)
  also have "\<dots> = filter (\<lambda>l. \<not> P l) xs"
    by (simp add: rev_filter [symmetric])
  finally show ?thesis .
qed

lemma cleaned_lines_filter:
  "filter (\<lambda>l. \<not> blank l) (cleaned_lines t) = filter (\<lambda>l. \<not> blank l) (split_lines t)"
  unfolding cleaned_lines_def
  by (simp only: filter_rev_dropWhile_rev filter_dropWhile_not clean_lines_filter)

text \<open>
  The normalised lines are the paragraphs of the text with one empty line between
  consecutive paragraphs: a run of blank lines between two paragraphs, however long,
  leaves exactly one empty line, and the blank lines before the first and after the
  last paragraph leave none.
\<close>

lemma clean_lines_run:
  "list_all (\<lambda>x. \<not> blank x) run \<Longrightarrow> clean_lines b (run @ rest) = run @ clean_lines (b \<and> run = []) rest"
  by (induction run arbitrary: b) auto

lemma clean_lines_True_hd:
  "clean_lines True ls = [] \<or> \<not> blank (hd (clean_lines True ls))"
  by (induction ls) auto

lemma paragraphs_nonempty: "p \<in> set (paragraphs ls) \<Longrightarrow> p \<noteq> []"
  by (induction ls rule: paragraphs.induct) (auto split: if_splits)

lemma separated_Nil_iff: "list_all (\<lambda>p. p \<noteq> []) ps \<Longrightarrow> separated ps = [] \<longleftrightarrow> ps = []"
  by (induction ps rule: separated.induct) auto

lemma rstrip_blank_append:
  "rstrip_blank (a @ x) = (if rstrip_blank x = [] then rstrip_blank a else a @ rstrip_blank x)"
  by (auto simp: rstrip_blank_def dropWhile_append dropWhile_eq_Nil_conv)

lemma rstrip_blank_nonblank: "a \<noteq> [] \<Longrightarrow> \<not> blank (last a) \<Longrightarrow> rstrip_blank a = a"
  by (cases a rule: rev_cases) (auto simp: rstrip_blank_def)

lemma rstrip_blank_run:
  "a \<noteq> [] \<Longrightarrow> \<not> blank (last a) \<Longrightarrow> rstrip_blank (a @ x) = a @ rstrip_blank x"
  by (simp add: rstrip_blank_append rstrip_blank_nonblank)

lemma rstrip_blank_empty_line:
  "rstrip_blank ([] # y) = (if rstrip_blank y = [] then [] else [] # rstrip_blank y)"
  using rstrip_blank_append [of "[[]]" y] by (simp add: rstrip_blank_def blank_Nil)

lemma run_nonblank:
  "\<not> blank l \<Longrightarrow> list_all (\<lambda>x. \<not> blank x) (l # takeWhile (\<lambda>x. \<not> blank x) ls)"
  by (auto simp: list_all_iff dest: set_takeWhileD)

lemma run_last_nonblank:
  "\<not> blank l \<Longrightarrow> \<not> blank (last (l # takeWhile (\<lambda>x. \<not> blank x) ls))"
proof -
  assume "\<not> blank l"
  then have "\<forall>x \<in> set (l # takeWhile (\<lambda>x. \<not> blank x) ls). \<not> blank x"
    by (auto dest: set_takeWhileD)
  moreover have "last (l # takeWhile (\<lambda>x. \<not> blank x) ls) \<in> set (l # takeWhile (\<lambda>x. \<not> blank x) ls)"
    by (rule last_in_set) simp
  ultimately show ?thesis by blast
qed

lemma rest_blank:
  "dropWhile (\<lambda>x. \<not> blank x) ls = r # rest' \<Longrightarrow> blank r"
  using hd_dropWhile [of "\<lambda>x. \<not> blank x" ls] by auto

lemma separated_paragraphs_Nil_iff: "separated (paragraphs ls) = [] \<longleftrightarrow> paragraphs ls = []"
  by (intro separated_Nil_iff) (auto simp: list_all_iff paragraphs_nonempty)

lemma separated_Cons: "separated (p # ps) = (if ps = [] then p else p @ [] # separated ps)"
  by (cases ps) simp_all

lemma cleaned_paragraphs:
  "rstrip_blank (dropWhile blank (clean_lines b ls)) = separated (paragraphs ls)"
proof (induction ls arbitrary: b rule: paragraphs.induct)
  case 1
  show ?case by (simp add: rstrip_blank_def)
next
  case (2 l ls)
  show ?case
  proof (cases "blank l")
    case True
    have "rstrip_blank (dropWhile blank (clean_lines b (l # ls))) =
          rstrip_blank (dropWhile blank (clean_lines True ls))"
      using True by (simp add: blank_Nil)
    also have "\<dots> = separated (paragraphs ls)"
      using 2(1) [OF True] .
    also have "\<dots> = separated (paragraphs (l # ls))"
      using True by simp
    finally show ?thesis .
  next
    case False
    define run where "run = l # takeWhile (\<lambda>x. \<not> blank x) ls"
    define rest where "rest = dropWhile (\<lambda>x. \<not> blank x) ls"
    have run: "list_all (\<lambda>x. \<not> blank x) run" "run \<noteq> []" "\<not> blank (last run)" "\<not> blank (hd run)"
      using False run_nonblank [of l ls] run_last_nonblank [of l ls] by (simp_all add: run_def)
    have ls: "l # ls = run @ rest"
      by (simp add: run_def rest_def)
    have cl: "clean_lines b (l # ls) = run @ clean_lines False rest"
      unfolding ls using clean_lines_run [OF run(1), of b rest] run(2) by simp
    have IH: "rstrip_blank (dropWhile blank (clean_lines False rest)) = separated (paragraphs rest)"
      using 2(2) [OF False, of False] by (simp add: rest_def)
    have r: "rstrip_blank (clean_lines False rest) =
             (if paragraphs rest = [] then [] else [] # separated (paragraphs rest))"
    proof (cases rest)
      case Nil
      then show ?thesis by (simp add: rstrip_blank_def)
    next
      case (Cons r rest')
      then have br: "blank r"
        using rest_blank [of ls r rest'] by (simp add: rest_def)
      have X: "clean_lines False rest = [] # clean_lines True rest'"
        using Cons br by simp
      have dY: "dropWhile blank (clean_lines True rest') = clean_lines True rest'"
        using clean_lines_True_hd [of rest'] by (cases "clean_lines True rest'") auto
      from IH have Y: "rstrip_blank (clean_lines True rest') = separated (paragraphs rest)"
        by (simp add: X blank_Nil dY)
      show ?thesis
        unfolding X rstrip_blank_empty_line Y separated_paragraphs_Nil_iff ..
    qed
    have p: "paragraphs (l # ls) = run # paragraphs rest"
      using False by (simp add: run_def rest_def)
    have "dropWhile blank (run @ clean_lines False rest) = run @ clean_lines False rest"
      using run(2,4) by (cases run) auto
    then have "rstrip_blank (dropWhile blank (clean_lines b (l # ls))) =
          run @ rstrip_blank (clean_lines False rest)"
      unfolding cl using rstrip_blank_run [OF run(2,3)] by simp
    also have "\<dots> = separated (run # paragraphs rest)"
      unfolding r separated_Cons by simp
    finally show ?thesis
      unfolding p .
  qed
qed

lemma cleaned_lines_paragraphs:
  "cleaned_lines t = separated (paragraphs (split_lines t))"
  using cleaned_paragraphs [of False "split_lines t"] by (simp add: cleaned_lines_def rstrip_blank_def)

lemma set_join_last: "ls \<noteq> [] \<Longrightarrow> set (last ls) \<subseteq> set (join sep ls)"
  by (induction sep ls rule: join.induct) auto

lemma clean_block_blank_iff: "blank (clean_block t) \<longleftrightarrow> clean_block t = []"
proof
  assume b: "blank (clean_block t)"
  show "clean_block t = []"
  proof (cases "cleaned_lines t = []")
    case True
    then show ?thesis by (simp add: clean_block_def join_lines_def)
  next
    case False
    with cleaned_lines_normal [of t] have "\<not> blank (last (cleaned_lines t))"
      by (simp add: normal_lines_def)
    then obtain c where "c \<in> set (last (cleaned_lines t))" "\<not> is_space c"
      by (auto simp: blank_iff)
    with set_join_last [OF False, of "[10]"] have "\<not> blank (clean_block t)"
      by (auto simp: blank_iff clean_block_def join_lines_def)
    with b show ?thesis by simp
  qed
next
  assume "clean_block t = []"
  then show "blank (clean_block t)" by (simp add: blank_Nil)
qed

lemma clean_block_Nil: "clean_block [] = []"
  by (simp add: clean_block_def cleaned_lines_def split_lines_def blank_def strip_def join_lines_def)

lemma map_filter_Cons_Some: "f x = Some y \<Longrightarrow> List.map_filter f (x # xs) = y # List.map_filter f xs"
  by (simp add: List.map_filter_simps)

lemma gather_closed_form:
  assumes "set ns \<subseteq> fst ` set pm"
    and "first_page_text g = [] \<longleftrightarrow> page_texts g = []"
  shows "gather pm ns g =
     Inr \<lparr> page_texts = page_texts g @ map full_text (body_pages pm ns),
           first_page_text =
             (if page_texts g \<noteq> [] then first_page_text g
              else case body_pages pm ns of [] \<Rightarrow> first_page_text g | d # _ \<Rightarrow> full_text d),
           first_page_composition =
             (if page_texts g \<noteq> [] then first_page_composition g
              else case body_pages pm ns of [] \<Rightarrow> first_page_composition g
                   | d # _ \<Rightarrow> strip (composition d)) \<rparr>"
  using assms
proof (induction ns arbitrary: g)
  case Nil
  then show ?case by (simp add: body_pages_def List.map_filter_simps)
next
  case (Cons n ns)
  then obtain d where d: "map_of pm n = Some d"
    by (cases "map_of pm n") (auto simp: map_of_eq_None_iff)
  show ?case
  proof (cases "blank (full_text d)")
    case True
    have bp: "body_pages pm (n # ns) = body_pages pm ns"
      using d True by (simp add: body_pages_def map_filter_Cons_Some)
    from Cons.prems have "gather pm ns g = Inr \<lparr> page_texts = page_texts g @ map full_text (body_pages pm ns),
           first_page_text =
             (if page_texts g \<noteq> [] then first_page_text g
              else case body_pages pm ns of [] \<Rightarrow> first_page_text g | d # _ \<Rightarrow> full_text d),
           first_page_composition =
             (if page_texts g \<noteq> [] then first_page_composition g
              else case body_pages pm ns of [] \<Rightarrow> first_page_composition g
                   | d # _ \<Rightarrow> strip (composition d)) \<rparr>"
      by (intro Cons.IH) auto
    with d True bp show ?thesis by simp
  next
    case False
    have bp: "body_pages pm (n # ns) = d # body_pages pm ns"
      using d False by (simp add: body_pages_def map_filter_Cons_Some)
    have ne: "full_text d \<noteq> []"
      using False by (rule nonblank_nonempty)
    let ?g' = "(if first_page_text g = []
               then \<lparr> page_texts = page_texts g @ [full_text d],
                      first_page_text = full_text d,
                      first_page_composition = strip (composition d) \<rparr>
               else g \<lparr> page_texts := page_texts g @ [full_text d] \<rparr>)"
    have inv': "first_page_text ?g' = [] \<longleftrightarrow> page_texts ?g' = []"
      using ne Cons.prems(2) by auto
    have sub: "set ns \<subseteq> fst ` set pm"
      using Cons.prems(1) by auto
    have "gather pm (n # ns) g = gather pm ns ?g'"
      using d False by simp
    also note Cons.IH [OF sub inv']
    finally show ?thesis
      using bp Cons.prems(2) by (auto split: if_splits)
  qed
qed

lemma create_product_block_ok:
  assumes "set ns \<subseteq> fst ` set pm"
  shows "create_product_block tbl title ns pm = Inr (product_block tbl pm (title, ns))"
proof -
  let ?g0 = "\<lparr> page_texts = [], first_page_text = [], first_page_composition = [] \<rparr>"
  have "gather pm ns ?g0 =
     Inr \<lparr> page_texts = map full_text (body_pages pm ns),
           first_page_text = (case body_pages pm ns of [] \<Rightarrow> [] | d # _ \<Rightarrow> full_text d),
           first_page_composition = (case body_pages pm ns of [] \<Rightarrow> [] | d # _ \<Rightarrow> strip (composition d)) \<rparr>"
    using gather_closed_form [OF assms, of ?g0] by (simp split: list.splits)
  then show ?thesis
    by (simp add: create_product_block_def product_block_def Let_def block_texts_def
        block_composition_def block_body_def clean_block_blank_iff)
qed

lemma section_texts_ok:
  "set ns \<subseteq> fst ` set pm \<Longrightarrow> section_texts pm ns = Inr (map full_text (body_pages pm ns))"
proof (induction ns)
  case Nil
  then show ?case by (simp add: body_pages_def List.map_filter_simps)
next
  case (Cons n ns)
  then obtain d where d: "map_of pm n = Some d"
    by (cases "map_of pm n") (auto simp: map_of_eq_None_iff)
  with Cons show ?case
    by (simp add: body_pages_def map_filter_Cons_Some)
qed

lemma create_section_block_ok:
  "set ns \<subseteq> fst ` set pm \<Longrightarrow>
   create_section_block ns pm = Inr (clean_block (join_blank (map full_text (body_pages pm ns))))"
  by (simp add: create_section_block_def section_texts_ok)

text \<open>
  C9 as stated fails: the title and the composition are not separated by a blank
  line.  The header is built as the title, one newline, the composition; only the
  header and the body are separated by a blank line.  For the product "Gel" with the
  composition "Aqua" the block starts with the lines "Gel", "Aqua", not with "Gel", an
  empty line, "Aqua".
\<close>

theorem product_block_single_newline:
  "create_product_block [] (asc ''Gel'') [1, 2] gel_example =
     Inr (asc ''Gel'' @ [10] @ asc ''Aqua'' @ [10, 10] @ asc ''Body.'' @ [10, 10] @
          asc ''More'' @ [10, 10] @ asc ''End.'') \<and>
   create_product_block [] (asc ''Gel'') [1, 2] gel_example \<noteq>
     Inr (asc ''Gel'' @ [10, 10] @ asc ''Aqua'' @ [10, 10] @ asc ''Body.'' @ [10, 10] @
          asc ''More'' @ [10, 10] @ asc ''End.'')"
  by (simp add: example_defs char_defs str_defs rx_defs assembler_defs)

text \<open>
  C9, amended.  For a product whose page indices are keys of the page map,
  \<open>_create_product_block\<close> returns the resolved title; then, when the stripped
  composition of the first member page with a non-blank text is not empty, one newline
  and that composition; then, when the body is not empty, a blank line and the body.
  The body is the text of the member pages with a non-blank text, joined by blank
  lines, with its blank lines normalised: its lines are the paragraphs (the maximal
  runs of lines that are not blank) of the joined text, in order and unchanged, with
  exactly one empty line between two consecutive paragraphs, so that every run of
  blank lines has collapsed to one empty line and the blank lines at the start and at
  the end are gone.  Hence no two blank lines in a row, none first or last, every
  blank line empty, and the lines that are not blank kept in order.  The title is
  resolved against the joined text.  The normalisation applies to the body, not to the
  header.
\<close>

theorem product_block_layout:
  assumes "set ns \<subseteq> fst ` set pm"
  shows "create_product_block tbl title ns pm =
           Inr (resolve_full_title tbl title (join_blank (block_texts pm ns)) @
                (if block_composition pm ns = [] then [] else 10 # block_composition pm ns) @
                (if block_body pm ns = [] then [] else [10, 10] @ block_body pm ns)) \<and>
         block_body pm ns = join_lines (cleaned_lines (join_blank (block_texts pm ns))) \<and>
         cleaned_lines (join_blank (block_texts pm ns)) =
           separated (paragraphs (split_lines (join_blank (block_texts pm ns)))) \<and>
         normal_lines (cleaned_lines (join_blank (block_texts pm ns))) \<and>
         filter (\<lambda>l. \<not> blank l) (cleaned_lines (join_blank (block_texts pm ns))) =
           filter (\<lambda>l. \<not> blank l) (split_lines (join_blank (block_texts pm ns)))"
proof -
  have "cleaned_lines (join_blank (block_texts pm ns)) =
        separated (paragraphs (split_lines (join_blank (block_texts pm ns))))"
    by (rule cleaned_lines_paragraphs)
  moreover have "block_body pm ns = join_lines (cleaned_lines (join_blank (block_texts pm ns)))"
    by (simp add: block_body_def clean_block_def)
  moreover note create_product_block_ok [OF assms, of tbl title]
    cleaned_lines_normal [of "join_blank (block_texts pm ns)"]
    cleaned_lines_filter [of "join_blank (block_texts pm ns)"]
  ultimately show ?thesis
    by (simp add: product_block_def)
qed

theorem product_block_layout_witness:
  "set [1, 2] \<subseteq> fst ` set gel_example \<and>
   block_composition gel_example [1, 2] = asc ''Aqua'' \<and>
   block_body gel_example [1, 2] = asc ''Body.'' @ [10, 10] @ asc ''More'' @ [10, 10] @ asc ''End.'' \<and>
   split_lines (join_blank (block_texts gel_example [1, 2])) =
     [asc ''Body.'', [], [], [], asc ''More'', [], [], [], asc ''End.'', []] \<and>
   paragraphs (split_lines (join_blank (block_texts gel_example [1, 2]))) =
     [[asc ''Body.''], [asc ''More''], [asc ''End.'']] \<and>
   cleaned_lines (join_blank (block_texts gel_example [1, 2])) =
     [asc ''Body.'', [], asc ''More'', [], asc ''End.''] \<and>
   create_product_block [] (asc ''Gel'') [1, 2] gel_example =
     Inr (resolve_full_title [] (asc ''Gel'') (join_blank (block_texts gel_example [1, 2])) @
          10 # asc ''Aqua'' @ [10, 10] @ asc ''Body.'' @ [10, 10] @ asc ''More'' @ [10, 10] @ asc ''End.'')"
proof -
  have l: "split_lines (join_blank (block_texts gel_example [1, 2])) =
     [asc ''Body.'', [], [], [], asc ''More'', [], [], [], asc ''End.'', []]"
    by (simp add: example_defs block_defs char_defs str_defs)
  have p: "paragraphs [asc ''Body.'', [], [], [], asc ''More'', [], [], [], asc ''End.'', []] =
     [[asc ''Body.''], [asc ''More''], [asc ''End.'']]"
    by (simp add: char_defs str_defs)
  have h: "set [1, 2] \<subseteq> fst ` set gel_example"
    by (simp add: gel_example_def)
  have c: "block_composition gel_example [1, 2] = asc ''Aqua''"
    by (simp add: example_defs block_defs char_defs str_defs)
  have b: "block_body gel_example [1, 2] =
           asc ''Body.'' @ [10, 10] @ asc ''More'' @ [10, 10] @ asc ''End.''"
    by (simp add: example_defs block_defs char_defs str_defs cleaned_lines_def clean_block_def)
  from product_block_layout [OF h, of "[]" "asc ''Gel''"] h c b l p show ?thesis
    by (simp add: asc_def)
qed


section \<open>The loop of block assembly\<close>

lemma close_product_ok:
  "asm_inv pm st \<Longrightarrow> close_product tbl pm st = Inr (all_blocks st @ open_block tbl pm st)"
  by (auto simp: asm_inv_def close_product_def open_block_def cur_of_def create_product_block_ok
           split: option.splits)

lemma title_norm_of_Some: "map_of pm n = Some d \<Longrightarrow> title_norm_of pm n = strip (top_left_title_norm d)"
  by (simp add: title_norm_of_def)

lemma asm_step_ok:
  assumes inv: "asm_inv pm st" and n: "n \<in> fst ` set pm"
  shows "\<exists>st'. asm_step tbl pm n st = Inr st' \<and> asm_inv pm st' \<and>
     all_blocks st' @ map (product_block tbl pm) (product_groups pm (cur_of st') ns) =
       all_blocks st @ map (product_block tbl pm) (product_groups pm (cur_of st) (n # ns)) \<and>
     section_pages st' =
       section_pages st @ (if cur_of st = None \<and> title_norm_of pm n = [] then [n] else []) \<and>
     (cur_of st' = None \<longleftrightarrow> cur_of st = None \<and> title_norm_of pm n = [])"
proof -
  from n obtain d where d: "map_of pm n = Some d"
    by (cases "map_of pm n") (auto simp: map_of_eq_None_iff)
  let ?t = "strip (top_left_title_norm d)"
  have t: "title_norm_of pm n = ?t"
    using d by (rule title_norm_of_Some)
  from inv have pages: "set (current_product_pages st) \<subseteq> fst ` set pm"
    by (simp add: asm_inv_def)
  with n have pages': "set (current_product_pages st @ [n]) \<subseteq> fst ` set pm"
    by simp
  show ?thesis
  proof (cases "current_product_title st")
    case None
    then have cur: "cur_of st = None" by (simp add: cur_of_def)
    show ?thesis
    proof (cases "?t = []")
      case True
      then have "asm_step tbl pm n st = Inr (st \<lparr> section_pages := section_pages st @ [n] \<rparr>)"
        using d None by (simp add: asm_step_def truthy_def)
      with True None cur t pages show ?thesis
        by (simp add: cur_of_def asm_inv_def)
    next
      case False
      then have "asm_step tbl pm n st =
          Inr (st \<lparr> all_blocks := all_blocks st, current_product_title := Some ?t,
                    current_product_pages := [n] \<rparr>)"
        using d None by (simp add: asm_step_def close_product_def)
      with False None cur t n show ?thesis
        by (simp add: cur_of_def asm_inv_def)
    qed
  next
    case (Some ct)
    then have cur: "cur_of st = Some (ct, current_product_pages st)" by (simp add: cur_of_def)
    from inv Some have ct: "ct \<noteq> []" "current_product_pages st \<noteq> []"
      by (simp_all add: asm_inv_def)
    show ?thesis
    proof (cases "?t \<noteq> [] \<and> ?t \<noteq> ct")
      case True
      then have "asm_step tbl pm n st =
          Inr (st \<lparr> all_blocks := all_blocks st @ open_block tbl pm st,
                    current_product_title := Some ?t, current_product_pages := [n] \<rparr>)"
        using d Some close_product_ok [OF inv, of tbl] by (simp add: asm_step_def)
      with True Some cur t n show ?thesis
        by (simp add: cur_of_def asm_inv_def open_block_def)
    next
      case False
      then have "asm_step tbl pm n st =
          Inr (st \<lparr> current_product_pages := current_product_pages st @ [n] \<rparr>)"
        using d Some ct by (auto simp: asm_step_def truthy_def)
      with False Some cur t pages' ct show ?thesis
        by (auto simp: cur_of_def asm_inv_def)
    qed
  qed
qed

lemma product_groups_Nil:
  "map (product_block tbl pm) (product_groups pm (cur_of st) []) = open_block tbl pm st"
  by (cases "cur_of st") (simp_all add: open_block_def)

lemma asm_loop_ok:
  assumes "asm_inv pm st" and "set ns \<subseteq> fst ` set pm"
  shows "\<exists>st'. asm_loop tbl pm ns st = Inr st' \<and> asm_inv pm st' \<and>
     all_blocks st' @ open_block tbl pm st' =
       all_blocks st @ map (product_block tbl pm) (product_groups pm (cur_of st) ns) \<and>
     section_pages st' =
       section_pages st @ (if cur_of st = None then section_prefix pm ns else [])"
  using assms
proof (induction ns arbitrary: st)
  case Nil
  then show ?case
    by (simp add: product_groups_Nil section_prefix_def)
next
  case (Cons n ns)
  from Cons.prems have n: "n \<in> fst ` set pm" and ns: "set ns \<subseteq> fst ` set pm"
    by auto
  from asm_step_ok [OF Cons.prems(1) n, of tbl ns] obtain st1 where all1:
    "asm_step tbl pm n st = Inr st1 \<and> asm_inv pm st1 \<and>
     all_blocks st1 @ map (product_block tbl pm) (product_groups pm (cur_of st1) ns) =
       all_blocks st @ map (product_block tbl pm) (product_groups pm (cur_of st) (n # ns)) \<and>
     section_pages st1 =
       section_pages st @ (if cur_of st = None \<and> title_norm_of pm n = [] then [n] else []) \<and>
     (cur_of st1 = None \<longleftrightarrow> cur_of st = None \<and> title_norm_of pm n = [])" ..
  note s1 = all1 [THEN conjunct1]
    and i1 = all1 [THEN conjunct2, THEN conjunct1]
    and b1 = all1 [THEN conjunct2, THEN conjunct2, THEN conjunct1]
    and p1 = all1 [THEN conjunct2, THEN conjunct2, THEN conjunct2, THEN conjunct1]
    and c1 = all1 [THEN conjunct2, THEN conjunct2, THEN conjunct2, THEN conjunct2]
  from Cons.IH [OF i1 ns] obtain st' where all2:
    "asm_loop tbl pm ns st1 = Inr st' \<and> asm_inv pm st' \<and>
     all_blocks st' @ open_block tbl pm st' =
       all_blocks st1 @ map (product_block tbl pm) (product_groups pm (cur_of st1) ns) \<and>
     section_pages st' =
       section_pages st1 @ (if cur_of st1 = None then section_prefix pm ns else [])" ..
  note l = all2 [THEN conjunct1]
    and i' = all2 [THEN conjunct2, THEN conjunct1]
    and b' = all2 [THEN conjunct2, THEN conjunct2, THEN conjunct1]
    and p' = all2 [THEN conjunct2, THEN conjunct2, THEN conjunct2]
  have "section_pages st' = section_pages st @ (if cur_of st = None then section_prefix pm (n # ns) else [])"
    using p' p1 c1 by (auto simp: section_prefix_def)
  with s1 l i' b' b1 show ?case
    by simp
qed

lemma sorted_keys_subset: "set (sorted_keys pm) \<subseteq> fst ` set pm"
  by (auto simp: sorted_keys_def)

lemma section_prefix_subset: "set (section_prefix pm ns) \<subseteq> set ns"
  by (auto simp: section_prefix_def dest: set_takeWhileD)

text \<open>
  The assembler never raises \<open>KeyError\<close>, and its block list is the section block, when
  that is not blank, followed by the blocks of the product groups in order.
\<close>

lemma assemble_blocks:
  "assemble_by_title_anchors pm =
     Inr ((if \<not> blank (section_block pm) then [section_block pm] else []) @
          map (product_block (fold ins (toc_occurrences pm) []) pm)
              (product_groups pm None (sorted_keys pm)))"
proof -
  let ?tbl = "fold ins (toc_occurrences pm) []"
  let ?st0 = "\<lparr> all_blocks = [], current_product_title = None,
                current_product_pages = [], section_pages = [] \<rparr>"
  have inv0: "asm_inv pm ?st0" and cur0: "cur_of ?st0 = None"
    by (simp_all add: asm_inv_def cur_of_def)
  from asm_loop_ok [OF inv0 sorted_keys_subset, of ?tbl] obtain st' where all':
    "asm_loop ?tbl pm (sorted_keys pm) ?st0 = Inr st' \<and> asm_inv pm st' \<and>
     all_blocks st' @ open_block ?tbl pm st' =
       all_blocks ?st0 @ map (product_block ?tbl pm) (product_groups pm (cur_of ?st0) (sorted_keys pm)) \<and>
     section_pages st' =
       section_pages ?st0 @ (if cur_of ?st0 = None then section_prefix pm (sorted_keys pm) else [])" ..
  note l = all' [THEN conjunct1]
    and i' = all' [THEN conjunct2, THEN conjunct1]
  have b': "all_blocks st' @ open_block ?tbl pm st' =
         map (product_block ?tbl pm) (product_groups pm None (sorted_keys pm))"
    using all' [THEN conjunct2, THEN conjunct2, THEN conjunct1] cur0 by simp
  have p': "section_pages st' = section_prefix pm (sorted_keys pm)"
    using all' [THEN conjunct2, THEN conjunct2, THEN conjunct2] cur0 by simp
  have sub: "set (section_pages st') \<subseteq> fst ` set pm"
    using p' section_prefix_subset [of pm "sorted_keys pm"] sorted_keys_subset [of pm] by auto
  have sb: "create_section_block (section_pages st') pm = Inr (section_block pm)"
    using create_section_block_ok [OF sub] p' by (simp add: section_block_def)
  have empty: "section_pages st' = [] \<Longrightarrow> blank (section_block pm)"
    using p' by (simp add: section_block_def body_pages_def List.map_filter_simps
        join_blank_def clean_block_Nil blank_Nil)
  show ?thesis
    using l close_product_ok [OF i', of ?tbl] b' sb empty
    by (auto simp: assemble_by_title_anchors_def build_title_lookup_fold)
qed

lemma same_block_prepend: "same_block gs p q \<Longrightarrow> same_block (G0 @ gs) p q"
  unfolding same_block_def
proof (elim exE)
  fix G1 t ps1 ps2 G2
  assume "gs = G1 @ (t, ps1 @ p # q # ps2) # G2"
  then have "G0 @ gs = (G0 @ G1) @ (t, ps1 @ p # q # ps2) # G2" by simp
  then show "\<exists>G1 t ps1 ps2 G2. G0 @ gs = G1 @ (t, ps1 @ p # q # ps2) # G2" by blast
qed

lemma adjacent_blocks_prepend: "adjacent_blocks gs p q \<Longrightarrow> adjacent_blocks (G0 @ gs) p q"
  unfolding adjacent_blocks_def
proof (elim exE)
  fix G1 t1 ps1 t2 ps2 G2
  assume "gs = G1 @ (t1, ps1 @ [p]) # (t2, q # ps2) # G2"
  then have "G0 @ gs = (G0 @ G1) @ (t1, ps1 @ [p]) # (t2, q # ps2) # G2" by simp
  then show "\<exists>G1 t1 ps1 t2 ps2 G2. G0 @ gs = G1 @ (t1, ps1 @ [p]) # (t2, q # ps2) # G2" by blast
qed

lemma product_groups_open:
  "\<exists>ps2 G2. product_groups pm (Some (t, ps)) ns = (t, ps @ ps2) # G2"
proof (induction ns arbitrary: ps)
  case Nil
  show ?case by simp
next
  case (Cons n ns)
  show ?case
  proof (cases "title_norm_of pm n \<noteq> [] \<and> title_norm_of pm n \<noteq> t")
    case True
    then have "product_groups pm (Some (t, ps)) (n # ns) =
        (t, ps @ []) # product_groups pm (Some (title_norm_of pm n, [n])) ns"
      by simp
    then show ?thesis by blast
  next
    case False
    from Cons.IH [of "ps @ [n]"] obtain ps2 G2 where
      "product_groups pm (Some (t, ps @ [n])) ns = (t, (ps @ [n]) @ ps2) # G2" by blast
    with False have "product_groups pm (Some (t, ps)) (n # ns) = (t, ps @ (n # ps2)) # G2"
      by simp
    then show ?thesis by blast
  qed
qed

lemma product_groups_step:
  "\<exists>G0 cur'. \<forall>ns. product_groups pm cur (n # ns) = G0 @ product_groups pm cur' ns"
proof (cases cur)
  case None
  then have "\<forall>ns. product_groups pm cur (n # ns) =
      [] @ product_groups pm (if title_norm_of pm n \<noteq> [] then Some (title_norm_of pm n, [n]) else None) ns"
    by simp
  then show ?thesis by blast
next
  case (Some g)
  obtain t ps where g: "g = (t, ps)" by (cases g)
  show ?thesis
  proof (cases "title_norm_of pm n \<noteq> [] \<and> title_norm_of pm n \<noteq> t")
    case True
    with Some g have "\<forall>ns. product_groups pm cur (n # ns) =
        [(t, ps)] @ product_groups pm (Some (title_norm_of pm n, [n])) ns"
      by simp
    then show ?thesis by blast
  next
    case False
    with Some g have "\<forall>ns. product_groups pm cur (n # ns) =
        [] @ product_groups pm (Some (t, ps @ [n])) ns"
      by auto
    then show ?thesis by blast
  qed
qed

lemma product_groups_titled:
  assumes "title_norm_of pm p \<noteq> []"
  shows "\<exists>G0 zs. \<forall>ns. product_groups pm cur (p # ns) =
           G0 @ product_groups pm (Some (title_norm_of pm p, zs @ [p])) ns"
proof (cases cur)
  case None
  with assms have "\<forall>ns. product_groups pm cur (p # ns) =
      [] @ product_groups pm (Some (title_norm_of pm p, [] @ [p])) ns"
    by simp
  then show ?thesis by blast
next
  case (Some g)
  obtain t ps where g: "g = (t, ps)" by (cases g)
  show ?thesis
  proof (cases "title_norm_of pm p = t")
    case True
    with Some g assms have "\<forall>ns. product_groups pm cur (p # ns) =
        [] @ product_groups pm (Some (title_norm_of pm p, ps @ [p])) ns"
      by simp
    then show ?thesis by blast
  next
    case False
    with Some g assms have "\<forall>ns. product_groups pm cur (p # ns) =
        [(t, ps)] @ product_groups pm (Some (title_norm_of pm p, [] @ [p])) ns"
      by simp
    then show ?thesis by blast
  qed
qed

lemma consecutive_titled_pages:
  assumes p: "title_norm_of pm p \<noteq> []" and q: "title_norm_of pm q \<noteq> []"
  shows "if title_norm_of pm p = title_norm_of pm q
         then same_block (product_groups pm cur (xs @ p # q # ys)) p q
         else adjacent_blocks (product_groups pm cur (xs @ p # q # ys)) p q"
proof (induction xs arbitrary: cur)
  case Nil
  from product_groups_titled [OF p, of cur] obtain G0 zs where
    st: "product_groups pm cur (p # q # ys) =
         G0 @ product_groups pm (Some (title_norm_of pm p, zs @ [p])) (q # ys)"
    by blast
  show ?case
  proof (cases "title_norm_of pm p = title_norm_of pm q")
    case True
    from product_groups_open [of pm "title_norm_of pm p" "zs @ [p, q]" ys] obtain ps2 G2 where
      "product_groups pm (Some (title_norm_of pm p, zs @ [p, q])) ys =
         (title_norm_of pm p, (zs @ [p, q]) @ ps2) # G2" by blast
    with True st have "product_groups pm cur (p # q # ys) =
        G0 @ (title_norm_of pm p, zs @ p # q # ps2) # G2"
      by simp
    then have "same_block (product_groups pm cur (p # q # ys)) p q"
      unfolding same_block_def by blast
    with True show ?thesis by simp
  next
    case False
    from product_groups_open [of pm "title_norm_of pm q" "[q]" ys] obtain ps2 G2 where
      "product_groups pm (Some (title_norm_of pm q, [q])) ys =
         (title_norm_of pm q, [q] @ ps2) # G2" by blast
    with False q st have "product_groups pm cur (p # q # ys) =
        G0 @ (title_norm_of pm p, zs @ [p]) # (title_norm_of pm q, q # ps2) # G2"
      by simp
    then have "adjacent_blocks (product_groups pm cur (p # q # ys)) p q"
      unfolding adjacent_blocks_def by blast
    with False show ?thesis by simp
  qed
next
  case (Cons x xs)
  from product_groups_step [of pm cur x] obtain G0 cur' where
    "product_groups pm cur (x # xs @ p # q # ys) = G0 @ product_groups pm cur' (xs @ p # q # ys)"
    by blast
  with Cons.IH [of cur'] show ?case
    by (simp add: same_block_prepend adjacent_blocks_prepend)
qed

lemma product_groups_pages:
  "concat (map snd (product_groups pm cur ns)) =
     (case cur of None \<Rightarrow> dropWhile (\<lambda>n. title_norm_of pm n = []) ns
      | Some g \<Rightarrow> snd g @ ns)"
  by (induction pm cur ns rule: product_groups.induct) auto

lemma section_and_products_partition:
  "section_prefix pm ns @ concat (map snd (product_groups pm None ns)) = ns"
  by (simp add: product_groups_pages section_prefix_def)

lemma product_groups_good:
  "(case cur of None \<Rightarrow> True | Some g \<Rightarrow> good_group pm g) \<Longrightarrow>
   list_all (good_group pm) (product_groups pm cur ns)"
proof (induction pm cur ns rule: product_groups.induct)
  case (4 pm t ps n ns)
  then have g: "good_group pm (t, ps)" by simp
  show ?case
  proof (cases "title_norm_of pm n \<noteq> [] \<and> title_norm_of pm n \<noteq> t")
    case True
    then have "good_group pm (title_norm_of pm n, [n])"
      by (simp add: good_group_def)
    with True g "4.IH"(1) show ?thesis by simp
  next
    case False
    with g have "good_group pm (t, ps @ [n])"
      by (cases ps) (auto simp: good_group_def)
    with False "4.IH"(2) show ?thesis by auto
  qed
qed (auto simp: good_group_def)



section \<open>A change of title opens a new block (C2)\<close>

text \<open>
  C2.  The assembler walks the page numbers in ascending order and returns the
  blocks of the groups that the state machine \<open>product_groups\<close> forms, after the section
  block if there is one.  Every page number is in the section or in exactly one
  group, in page order.  Every group starts with a page whose stripped title is not
  empty and is the group's title; its other pages have an empty title or that title.
  Of two consecutive pages with non-empty stripped titles, the second continues the
  page list of the first one's group when the titles are equal, and otherwise the
  first ends its group and the second starts the next group.
\<close>

theorem title_change_opens_block:
  "assemble_by_title_anchors pm =
     Inr ((if \<not> blank (section_block pm) then [section_block pm] else []) @
          map (product_block (fold ins (toc_occurrences pm) []) pm)
              (product_groups pm None (sorted_keys pm))) \<and>
   sorted (sorted_keys pm) \<and>
   section_prefix pm (sorted_keys pm) @ concat (map snd (product_groups pm None (sorted_keys pm)))
     = sorted_keys pm \<and>
   list_all (good_group pm) (product_groups pm None (sorted_keys pm)) \<and>
   (sorted_keys pm = xs @ p # q # ys \<and> title_norm_of pm p \<noteq> [] \<and> title_norm_of pm q \<noteq> [] \<longrightarrow>
      (if title_norm_of pm p = title_norm_of pm q
       then same_block (product_groups pm None (sorted_keys pm)) p q
       else adjacent_blocks (product_groups pm None (sorted_keys pm)) p q))"
proof -
  have pair: "if title_norm_of pm p = title_norm_of pm q
       then same_block (product_groups pm None (sorted_keys pm)) p q
       else adjacent_blocks (product_groups pm None (sorted_keys pm)) p q"
    if "sorted_keys pm = xs @ p # q # ys" "title_norm_of pm p \<noteq> []" "title_norm_of pm q \<noteq> []"
    using consecutive_titled_pages [OF that(2,3), of None xs ys] that(1) by simp
  have good: "list_all (good_group pm) (product_groups pm None (sorted_keys pm))"
    by (rule product_groups_good) simp
  have srt: "sorted (sorted_keys pm)"
    by (simp add: sorted_keys_def)
  from assemble_blocks [of pm] srt section_and_products_partition [of pm "sorted_keys pm"] good pair
  show ?thesis by blast
qed

theorem title_change_opens_block_witness:
  "sorted_keys catalog_example = [0] @ 1 # 2 # [3] \<and>
   sorted_keys catalog_example = [0, 1] @ 2 # 3 # [] \<and>
   product_groups catalog_example None (sorted_keys catalog_example) =
     [([1050, 1088, 1077, 1084, 32, 47, 32, 67, 114, 101, 97, 109], [1, 2]),
      ([1058, 1086, 1085, 1080, 1082, 32, 47, 32, 84, 111, 110, 105, 99], [3])] \<and>
   same_block (product_groups catalog_example None (sorted_keys catalog_example)) 1 2 \<and>
   adjacent_blocks (product_groups catalog_example None (sorted_keys catalog_example)) 2 3"
proof -
  have k: "sorted_keys catalog_example = [0, 1, 2, 3]"
    by (simp add: catalog_example_def sorted_keys_def)
  have t: "title_norm_of catalog_example 0 = []"
    "title_norm_of catalog_example 1 = [1050, 1088, 1077, 1084, 32, 47, 32, 67, 114, 101, 97, 109]"
    "title_norm_of catalog_example 2 = [1050, 1088, 1077, 1084, 32, 47, 32, 67, 114, 101, 97, 109]"
    "title_norm_of catalog_example 3 = [1058, 1086, 1085, 1080, 1082, 32, 47, 32, 84, 111, 110, 105, 99]"
    by (simp_all add: catalog_example_def title_norm_of_def strip_def is_space_def)
  have g: "product_groups catalog_example None (sorted_keys catalog_example) =
     [([1050, 1088, 1077, 1084, 32, 47, 32, 67, 114, 101, 97, 109], [1, 2]),
      ([1058, 1086, 1085, 1080, 1082, 32, 47, 32, 84, 111, 110, 105, 99], [3])]"
    by (simp add: k t)
  from title_change_opens_block [of catalog_example "[0]" 1 2 "[3]"] k t
  have s: "same_block (product_groups catalog_example None (sorted_keys catalog_example)) 1 2"
    by simp
  from title_change_opens_block [of catalog_example "[0, 1]" 2 3 "[]"] k t
  have a: "adjacent_blocks (product_groups catalog_example None (sorted_keys catalog_example)) 2 3"
    by simp
  from k g s a show ?thesis by simp
qed


section \<open>The section block (C8)\<close>

text \<open>
  C8.  The block list holds at most one section block.  It is the normalised text of
  the pages before the first page with a non-empty stripped title; the product blocks
  are built from exactly the pages from that page on.  The section block stands at
  position 0 when its text is not empty, and is left out when it is empty (a text of
  \<open>clean_block\<close> is blank only when it is empty).
\<close>

theorem section_block_first:
  "assemble_by_title_anchors pm =
     Inr ((if section_block pm \<noteq> [] then [section_block pm] else []) @
          map (product_block (fold ins (toc_occurrences pm) []) pm)
              (product_groups pm None (sorted_keys pm))) \<and>
   section_block pm =
     clean_block (join_blank (block_texts pm
       (takeWhile (\<lambda>n. title_norm_of pm n = []) (sorted_keys pm)))) \<and>
   concat (map snd (product_groups pm None (sorted_keys pm))) =
     dropWhile (\<lambda>n. title_norm_of pm n = []) (sorted_keys pm)"
  using assemble_blocks [of pm] clean_block_blank_iff [of "join_blank (map full_text
      (body_pages pm (section_prefix pm (sorted_keys pm))))"]
  by (simp add: section_block_def section_prefix_def block_texts_def product_groups_pages)

theorem section_block_first_witness:
  "section_block catalog_example = asc ''Intro'' \<and>
   assemble_by_title_anchors catalog_example =
     Inr (asc ''Intro'' #
          map (product_block (fold ins (toc_occurrences catalog_example) []) catalog_example)
              (product_groups catalog_example None (sorted_keys catalog_example)))"
proof -
  have k: "sorted_keys catalog_example = [0, 1, 2, 3]"
    by (simp add: catalog_example_def sorted_keys_def)
  have s: "section_block catalog_example = asc ''Intro''"
    unfolding section_block_def k
    by (simp add: catalog_example_def block_defs char_defs str_defs cleaned_lines_def
        clean_block_def)
  from section_block_first [of catalog_example] s show ?thesis
    by (simp add: asc_def)
qed


section \<open>De-hyphenation (C7)\<close>

lemma lastp_simps [simp]:
  "lastp p [] = p"
  "lastp p (a # u) = lastp (Some a) u"
  by (simp_all add: lastp_def)































lemma joined_Cons_cases:
  assumes "joined (c # t) t'"
  obtains t0 where "t' = c # t0" "joined t t0"
  | ws b t2 t0 where "t' = c # t0" "is_word c" "t = 45 # ws @ b # t2" "ws \<noteq> []"
      "list_all is_space ws" "is_word b" "joined (b # t2) t0"
  using assms by (cases rule: joined.cases) auto

lemma joined_hd: "joined (c # t) t' \<Longrightarrow> \<exists>t0. t' = c # t0"
  by (erule joined_Cons_cases) auto

lemma joined_Nil_right: "joined t [] \<Longrightarrow> t = []"
  by (cases t) (auto dest: joined_hd)









































text \<open>
  The condition of the second half below cannot be dropped.  In a chain of hyphenated
  words the first pattern joins the first pair and goes on behind it, so the second
  word is no longer there to be joined with the third; the two patterns for letters
  repair this for letters, nothing does for digits.
\<close>

lemma fix_hyphenation_chain:
  "fix_hyphenation (asc ''1- 2- 3'') = asc ''12- 3'' \<and>
   ends_hyphen_space (asc ''1- '') \<and>
   fix_hyphenation (asc ''a- b- c'') = asc ''abc''"
  by (simp add: char_defs str_defs rx_defs cleaner_defs ends_hyphen_space_def)




section \<open>Anchors after cleaning and assembly (C1)\<close>

lemma set_anchor_kinds: "set anchor_kinds = UNIV"
proof -
  have "k \<in> set anchor_kinds" for k
    by (cases k) (simp_all add: anchor_kinds_def)
  then show ?thesis by auto
qed

lemma check_quality_iff:
  "check_quality raw_pages final \<longleftrightarrow>
     (\<forall>k. extract_anchors_from_raw raw_pages k \<subseteq> extract_anchors_from_cleaned final k)"
proof -
  have "check_quality raw_pages final \<longleftrightarrow>
        (\<forall>k \<in> set anchor_kinds.
           extract_anchors_from_raw raw_pages k - extract_anchors_from_cleaned final k = {})"
    by (simp add: check_quality_def find_missing_anchors_def filter_empty_conv)
  then show ?thesis
    by (simp add: set_anchor_kinds)
qed

text \<open>
  A text without carriage return comes back from \<open>cleaned.txt\<close> as it was written, on
  either platform.
\<close>

lemma read_text_Cons: "c \<noteq> 13 \<Longrightarrow> read_text (c # r) = c # read_text r"
  by (cases r) simp_all

lemma read_text_newline: "read_text (13 # 10 # r) = 10 # read_text r"
  by simp

lemma write_text_Cons:
  "write_text pf (c # s) = (if c = 10 then linesep pf else [c]) @ write_text pf s"
  by (simp add: write_text_def)

lemma read_write_text: "13 \<notin> set s \<Longrightarrow> read_text (write_text pf s) = s"
proof (induction s)
  case Nil
  then show ?case by (simp add: write_text_def)
next
  case (Cons c s)
  then have IH: "read_text (write_text pf s) = s" by simp
  show ?case
  proof (cases "c = 10")
    case True
    show ?thesis
    proof (cases pf)
      case Posix
      with True IH show ?thesis by (simp add: write_text_Cons linesep_def read_text_Cons)
    next
      case Windows
      with True IH show ?thesis by (simp add: write_text_Cons linesep_def)
    qed
  next
    case False
    with Cons.prems IH show ?thesis by (simp add: write_text_Cons read_text_Cons)
  qed
qed

lemma process_pages_eq:
  assumes "assemble_by_title_anchors (clean_text pm) = Inr blocks"
    and "utf8_encodable (final_text blocks)" and "13 \<notin> set (final_text blocks)"
  shows "process_pages pf pm = Inr (check_quality (raw_texts pm) (final_text blocks))"
  using assms by (simp add: process_pages_def read_write_text)

lemma clean_article_page:
  "clean_text article_page = [(0, empty_page \<lparr> full_text := word_artikul \<rparr>)]"
  by (simp add: example_defs char_defs str_defs rx_defs cleaner_defs assembler_defs)

lemma assemble_article_page:
  "assemble_by_title_anchors (clean_text article_page) = Inr [word_artikul]"
  unfolding clean_article_page
  by (simp add: example_defs char_defs str_defs rx_defs assembler_defs)

lemma raw_anchors_article_page:
  "extract_anchors_from_raw (raw_texts article_page) Articles = {asc ''123''}"
  by (simp add: example_defs char_defs str_defs rx_defs assembler_defs qc_defs)

lemma final_anchors_article_page:
  "extract_anchors_from_cleaned (final_text [word_artikul]) Articles = {}"
  by (simp add: example_defs char_defs str_defs rx_defs assembler_defs qc_defs)

lemma final_text_article_page:
  "utf8_encodable (final_text [word_artikul]) \<and> 13 \<notin> set (final_text [word_artikul])"
  by (simp add: final_text_def join_blank_def word_artikul_def utf8_encodable_def)

text \<open>
  C1 as stated fails.  Cleaning deletes every line that consists of a number (the
  page-number rule), also when the number is an article code: a raw page with
  "Artikul" on one line and "123" on the next yields the raw article anchor "123",
  the final text is "Artikul", it has no article anchor, and the QC pass reports
  the anchor missing, on either platform.
\<close>

theorem cleaning_loses_article:
  "extract_anchors_from_raw (raw_texts article_page) Articles = {asc ''123''} \<and>
   assemble_by_title_anchors (clean_text article_page) = Inr [word_artikul] \<and>
   extract_anchors_from_cleaned (final_text [word_artikul]) Articles = {} \<and>
   process_pages Posix article_page = Inr False \<and>
   process_pages Windows article_page = Inr False"
proof -
  have "\<not> check_quality (raw_texts article_page) (final_text [word_artikul])"
    unfolding check_quality_iff
    using raw_anchors_article_page final_anchors_article_page by auto
  then have "process_pages pf article_page = Inr False" for pf
    using process_pages_eq [OF assemble_article_page, of pf] final_text_article_page by simp
  then show ?thesis
    using raw_anchors_article_page final_anchors_article_page assemble_article_page by simp
qed

text \<open>
  Two more ways to lose an anchor.  A line that does not end a sentence is merged with
  the next line also when that line is a subheading starting with a capital letter,
  so the heading is no longer at the start of a line.  And a carriage return inside an
  anchor of the raw text ("pH", carriage return, "5.5") survives cleaning and assembly
  but comes back from \<open>cleaned.txt\<close> as a newline, so the anchor read from the file is
  another string.
\<close>

lemma merging_loses_subheading: "process_pages Posix heading_page = Inr False"
  by (simp add: example_defs char_defs str_defs rx_defs cleaner_defs assembler_defs qc_defs)

lemma carriage_return_changes_anchor:
  "clean_text ph_page = ph_page \<and>
   assemble_by_title_anchors ph_page = Inr [asc ''pH'' @ [13] @ asc ''5.5''] \<and>
   read_text (write_text Posix (asc ''pH'' @ [13] @ asc ''5.5'')) = asc ''pH'' @ [10] @ asc ''5.5'' \<and>
   process_pages Posix ph_page = Inr False"
  by (simp add: example_defs char_defs str_defs rx_defs cleaner_defs assembler_defs qc_defs)

lemma single_page_blocks:
  assumes t: "strip (top_left_title_norm d) = []" and c: "clean_block (full_text d) = full_text d"
  shows "\<exists>blocks. assemble_by_title_anchors [(n, d)] = Inr blocks \<and> final_text blocks = full_text d"
proof -
  let ?pm = "[(n, d)]"
  have k: "sorted_keys ?pm = [n]"
    by (simp add: sorted_keys_def)
  have tn: "title_norm_of ?pm n = []"
    using t by (simp add: title_norm_of_def)
  have sect: "section_block ?pm = full_text d"
  proof (cases "blank (full_text d)")
    case True
    with c have "full_text d = []"
      using clean_block_blank_iff [of "full_text d"] by simp
    then show ?thesis
      by (simp add: section_block_def k section_prefix_def tn body_pages_def
          List.map_filter_simps join_blank_def clean_block_Nil blank_Nil)
  next
    case False
    then show ?thesis
      using c by (simp add: section_block_def k section_prefix_def tn body_pages_def
          List.map_filter_simps join_blank_def)
  qed
  have "assemble_by_title_anchors ?pm =
      Inr (if \<not> blank (full_text d) then [full_text d] else [])"
    using assemble_blocks [of ?pm] by (simp add: sect k tn)
  moreover have "final_text (if \<not> blank (full_text d) then [full_text d] else []) = full_text d"
    using c clean_block_blank_iff [of "full_text d"]
    by (auto simp: final_text_def join_blank_def)
  ultimately show ?thesis by blast
qed

lemma catalog_example_blocks:
  "\<exists>blocks. assemble_by_title_anchors (clean_text catalog_example) = Inr blocks \<and>
     utf8_encodable (final_text blocks) \<and> 13 \<notin> set (final_text blocks) \<and>
     check_quality (raw_texts catalog_example) (final_text blocks)"
  by (simp add: example_defs char_defs str_defs rx_defs cleaner_defs assembler_defs qc_defs)

text \<open>
  C1, amended.  The QC pass reports, per category, the anchors of the raw page texts
  that are not anchors of the text read back from \<open>cleaned.txt\<close>, and it passes exactly
  when every raw anchor of every category is an anchor of that text.  Cleaning
  followed by block assembly does not guarantee this for every page map.  It holds
  for a document of one untitled page whose text is left unchanged by the cleaning
  rules and by the blank-line normalisation and has neither a carriage return nor a
  surrogate code point (so that the file gives the text back), and on the four-page
  example catalog, on either platform.
\<close>

theorem qc_pass_iff_anchors_kept:
  "(check_quality raw_pages final \<longleftrightarrow>
      (\<forall>k. extract_anchors_from_raw raw_pages k \<subseteq> extract_anchors_from_cleaned final k)) \<and>
   (strip (top_left_title_norm d) = [] \<and> clean_page_text (full_text d) = full_text d \<and>
    clean_block (full_text d) = full_text d \<and> 13 \<notin> set (full_text d) \<and>
    utf8_encodable (full_text d) \<longrightarrow> process_pages pf [(n, d)] = Inr True) \<and>
   process_pages pf catalog_example = Inr True"
proof -
  have one: "process_pages pf [(n, d)] = Inr True"
    if "strip (top_left_title_norm d) = []" "clean_page_text (full_text d) = full_text d"
      "clean_block (full_text d) = full_text d" "13 \<notin> set (full_text d)"
      "utf8_encodable (full_text d)"
  proof -
    have cl: "clean_text [(n, d)] = [(n, d)]"
      using that(2) by (simp add: clean_text_simps clean_page_def)
    from single_page_blocks [OF that(1,3), of n] obtain blocks where
      b: "assemble_by_title_anchors [(n, d)] = Inr blocks" "final_text blocks = full_text d"
      by blast
    have "check_quality (raw_texts [(n, d)]) (final_text blocks)"
      unfolding check_quality_iff
      by (simp add: b(2) raw_texts_def extract_anchors_from_raw_def
          extract_anchors_from_cleaned_def join_lines_def)
    with process_pages_eq [of "[(n, d)]" blocks pf] b cl that(4,5) show ?thesis
      by simp
  qed
  from catalog_example_blocks obtain blocks where
    "assemble_by_title_anchors (clean_text catalog_example) = Inr blocks"
    "utf8_encodable (final_text blocks)" "13 \<notin> set (final_text blocks)"
    "check_quality (raw_texts catalog_example) (final_text blocks)"
    by blast
  then have ex: "process_pages pf catalog_example = Inr True"
    using process_pages_eq [of catalog_example blocks pf] by simp
  from check_quality_iff [of raw_pages final] one ex show ?thesis
    by blast
qed

theorem qc_pass_iff_anchors_kept_witness:
  "strip (top_left_title_norm (empty_page \<lparr> full_text := article_111 \<rparr>)) = [] \<and>
   clean_page_text article_111 = article_111 \<and>
   clean_block article_111 = article_111 \<and>
   13 \<notin> set article_111 \<and> utf8_encodable article_111 \<and>
   process_pages Windows [(0, empty_page \<lparr> full_text := article_111 \<rparr>)] = Inr True"
proof -
  have a: "strip (top_left_title_norm (empty_page \<lparr> full_text := article_111 \<rparr>)) = []"
    by (simp add: empty_page_def strip_def)
  have b: "clean_page_text article_111 = article_111"
    by (simp add: example_defs char_defs str_defs rx_defs cleaner_defs)
  have c: "clean_block article_111 = article_111"
    by (simp add: example_defs char_defs str_defs assembler_defs)
  have e: "13 \<notin> set article_111 \<and> utf8_encodable article_111"
    by (simp add: article_111_def utf8_encodable_def)
  from a b c e qc_pass_iff_anchors_kept [of _ _ "empty_page \<lparr> full_text := article_111 \<rparr>" Windows 0]
  show ?thesis by simp
qed

end
